theory Spec2Isabelle
  imports Main "HOL-Library.Word" "HOL-Library.Signed_Division" "HOL-Library.Log_Nat"
begin

section \<open>CLAHE (src/src/clahe.h): a shallow embedding of \<open>applyCLAHE\<close>\<close>

text \<open>
  The repository is one C++ function, \<open>applyCLAHE\<close>, which equalises a grayscale image
  in place: per tile a 256-bin histogram, clipping with redistribution of the excess, a
  cumulative table scaled to 0..255, and for every pixel a bilinear blend of the tables
  of four neighbouring tiles.

  The embedding keeps the machine arithmetic of the source:
  \<^item> \<open>int\<close> is a 32-bit two's complement integer. Values are HOL integers, and every
    \<open>+\<close>, \<open>-\<close> and \<open>*\<close> of the source on \<open>int\<close>s is followed by \<open>wrap32\<close>; \<open>/\<close> and
    \<open>%\<close> truncate towards zero (\<open>sdiv\<close>, \<open>smod\<close>). (C++ leaves signed overflow
    undefined; wrapping is what the usual targets do.) A loop counter stays below its
    bound, itself an \<open>int\<close>, so that \<open>++i\<close> never wraps.
  \<^item> \<open>uint8_t\<close> is \<open>8 word\<close>.
  \<^item> \<open>double\<close> is a rational number, and every operation rounds its exact result to
    53 significant bits, ties to even (\<open>round53\<close>), each operation on its own. This is
    IEEE 754 binary64 arithmetic wherever no overflow, underflow or NaN occurs. A
    \<open>double\<close> that the caller passes is a number \<open>q\<close> of at most 53 significant bits,
    \<open>round53 q = q\<close>.
  \<^item> An access outside a vector or the caller's buffer, a failed allocation and a
    division by zero are undefined behaviour or an exception in C++; the model returns
    them as values of \<open>error\<close>.
  \<^item> A cast of a \<open>double\<close> to \<open>int\<close> or \<open>uint8_t\<close> truncates towards zero. C++ leaves
    it undefined when the truncated value is no value of the target type (the usual
    targets differ in what they yield); the model returns that case as an \<open>error\<close> too.
\<close>

subsection \<open>Machine arithmetic\<close>

type_synonym u8 = "8 word"

datatype error = OutOfRange | AllocFailed | DivisionByZero | CastUndefined

definition wrap32 :: "int \<Rightarrow> int" where
  "wrap32 k = (k + 2147483648) mod 4294967296 - 2147483648"

definition add32 :: "int \<Rightarrow> int \<Rightarrow> int" where
  "add32 a b = wrap32 (a + b)"

definition sub32 :: "int \<Rightarrow> int \<Rightarrow> int" where
  "sub32 a b = wrap32 (a - b)"

definition mul32 :: "int \<Rightarrow> int \<Rightarrow> int" where
  "mul32 a b = wrap32 (a * b)"

type_synonym double = rat

text \<open>\<open>ilog2 q\<close> is \<open>\<lfloor>log\<^sub>2 q\<rfloor>\<close> for a positive rational \<open>q\<close>; \<open>bitlen k\<close> is the number
  of binary digits of a positive integer \<open>k\<close>.\<close>

definition ilog2 :: "rat \<Rightarrow> int" where
  "ilog2 q =
     (if 1 \<le> q then bitlen \<lfloor>q\<rfloor> - 1
      else - bitlen (\<lceil>1 / q\<rceil> - 1))"

text \<open>Rounding to the nearest integer, ties to the even one.\<close>

definition round_even :: "rat \<Rightarrow> int" where
  "round_even q =
     (let f = \<lfloor>q\<rfloor>; r = q - of_int f
      in if r < 1 / 2 then f
         else if 1 / 2 < r then f + 1
         else if even f then f else f + 1)"

text \<open>Rounding to 53 significant bits: the unit in the last place of \<open>q\<close> is
  \<open>2 ^ (ilog2 \<bar>q\<bar> - 52)\<close>.\<close>

definition round53 :: "rat \<Rightarrow> double" where
  "round53 q =
     (if q = 0 then 0
      else let e = ilog2 \<bar>q\<bar> - 52
           in of_int (round_even (q / 2 powi e)) * 2 powi e)"

definition dadd :: "double \<Rightarrow> double \<Rightarrow> double" where
  "dadd a b = round53 (a + b)"

definition dsub :: "double \<Rightarrow> double \<Rightarrow> double" where
  "dsub a b = round53 (a - b)"

definition dmul :: "double \<Rightarrow> double \<Rightarrow> double" where
  "dmul a b = round53 (a * b)"

definition ddiv :: "double \<Rightarrow> double \<Rightarrow> double" where
  "ddiv a b = round53 (a / b)"

text \<open>\<open>static_cast<double>\<close> of an \<open>int\<close>, and the implicit conversion of an \<open>int\<close> or
  a \<open>uint8_t\<close> operand in a \<open>double\<close> expression.\<close>

definition i2d :: "int \<Rightarrow> double" where
  "i2d k = round53 (of_int k)"

definition u2d :: "u8 \<Rightarrow> double" where
  "u2d v = i2d (uint v)"

text \<open>Truncation towards zero.\<close>

definition towards_zero :: "double \<Rightarrow> int" where
  "towards_zero q = (if 0 \<le> q then \<lfloor>q\<rfloor> else \<lceil>q\<rceil>)"

text \<open>\<open>static_cast<int>\<close> and \<open>static_cast<uint8_t>\<close> of a \<open>double\<close>: the truncated
  value when it is an \<open>int\<close> (a \<open>uint8_t\<close>), undefined otherwise.\<close>

definition d2i :: "double \<Rightarrow> error + int" where
  "d2i q =
     (if - 2147483648 \<le> towards_zero q \<and> towards_zero q \<le> 2147483647
      then Inr (towards_zero q) else Inl CastUndefined)"

definition d2u8 :: "double \<Rightarrow> error + u8" where
  "d2u8 q =
     (if 0 \<le> towards_zero q \<and> towards_zero q \<le> 255
      then Inr (word_of_int (towards_zero q)) else Inl CastUndefined)"

subsection \<open>Vectors and loops\<close>

text \<open>\<open>v[i]\<close> on a \<open>std::vector\<close> or through a pointer, the index an \<open>int\<close>.\<close>

definition vget :: "'a list \<Rightarrow> int \<Rightarrow> error + 'a" where
  "vget xs i = (if 0 \<le> i \<and> nat i < length xs then Inr (xs ! nat i) else Inl OutOfRange)"

definition vset :: "'a list \<Rightarrow> int \<Rightarrow> 'a \<Rightarrow> error + 'a list" where
  "vset xs i v = (if 0 \<le> i \<and> nat i < length xs then Inr (xs[nat i := v]) else Inl OutOfRange)"

text \<open>\<open>std::vector<uint8_t> v(n)\<close> with \<open>n\<close> an \<open>int\<close>: a negative \<open>n\<close> converts to a
  size no allocator grants.\<close>

definition valloc :: "int \<Rightarrow> error + u8 list" where
  "valloc n = (if n < 0 then Inl AllocFailed else Inr (replicate (nat n) 0))"

text \<open>\<open>for (int i = lo; i < hi; ++i) body\<close>, the state threaded through the body; the
  first error ends the loop.\<close>

fun for_steps :: "nat \<Rightarrow> int \<Rightarrow> (int \<Rightarrow> 's \<Rightarrow> error + 's) \<Rightarrow> 's \<Rightarrow> error + 's" where
  "for_steps 0 i body s = Inr s"
| "for_steps (Suc n) i body s =
     (case body i s of Inl e \<Rightarrow> Inl e | Inr s' \<Rightarrow> for_steps n (i + 1) body s')"

definition for_range :: "int \<Rightarrow> int \<Rightarrow> (int \<Rightarrow> 's \<Rightarrow> error + 's) \<Rightarrow> 's \<Rightarrow> error + 's" where
  "for_range lo hi body s = for_steps (nat (hi - lo)) lo body s"

subsection \<open>Step 1: histogram, clipping, redistribution, cumulative table\<close>

text \<open>Line 53: \<open>hist[data[y * width + x]]++\<close>.\<close>

definition count_pixel :: "u8 list \<Rightarrow> int \<Rightarrow> int \<Rightarrow> int \<Rightarrow> int list \<Rightarrow> error + int list" where
  "count_pixel data width y x hist =
     (case vget data (add32 (mul32 y width) x) of
        Inl e \<Rightarrow> Inl e
      | Inr p \<Rightarrow> Inr (hist[unat p := add32 (hist ! unat p) 1]))"

text \<open>Lines 46 and 51-55.\<close>

definition build_hist :: "u8 list \<Rightarrow> int \<Rightarrow> int \<Rightarrow> int \<Rightarrow> int \<Rightarrow> int \<Rightarrow> error + int list" where
  "build_hist data width startX startY tileW tileH =
     for_range startY (add32 startY tileH)
       (\<lambda>y. for_range startX (add32 startX tileW) (count_pixel data width y))
       (replicate 256 0)"

text \<open>Lines 58-64: the state is the histogram and \<open>excess\<close>.\<close>

definition clip_bin :: "int \<Rightarrow> nat \<Rightarrow> int list \<times> int \<Rightarrow> int list \<times> int" where
  "clip_bin clipCount i s =
     (case s of (hist, excess) \<Rightarrow>
        if clipCount < hist ! i
        then (hist[i := clipCount], add32 excess (sub32 (hist ! i) clipCount))
        else (hist, excess))"

definition clip_hist :: "int list \<Rightarrow> int \<Rightarrow> int list \<times> int" where
  "clip_hist hist clipCount = fold (clip_bin clipCount) [0..<256] (hist, 0)"

text \<open>Lines 67-69.\<close>

definition add_increment :: "int \<Rightarrow> int list \<Rightarrow> int list" where
  "add_increment increment hist =
     fold (\<lambda>i h. h[i := add32 (h ! i) increment]) [0..<256] hist"

text \<open>Lines 71-73: the bin that iteration \<open>i\<close> of the remainder loop increments, and the
  loop. The histogram is a C array of 256 entries; the index is checked.\<close>

definition remainder_bin :: "int \<Rightarrow> int \<Rightarrow> int" where
  "remainder_bin i remainder = mul32 i 256 sdiv remainder"

definition bump_bin :: "int \<Rightarrow> int \<Rightarrow> int list \<Rightarrow> error + int list" where
  "bump_bin remainder i hist =
     (case vget hist (remainder_bin i remainder) of
        Inl e \<Rightarrow> Inl e
      | Inr c \<Rightarrow> vset hist (remainder_bin i remainder) (add32 c 1))"

definition add_remainder :: "int \<Rightarrow> int list \<Rightarrow> error + int list" where
  "add_remainder remainder hist = for_range 0 remainder (bump_bin remainder) hist"

text \<open>Lines 65-73.\<close>

definition redistribute :: "int list \<Rightarrow> int \<Rightarrow> error + int list" where
  "redistribute hist excess =
     (let increment = excess sdiv 256;
          remainder = excess smod 256
      in add_remainder remainder (add_increment increment hist))"

text \<open>Lines 57-73.\<close>

definition clip_and_redistribute :: "int list \<Rightarrow> int \<Rightarrow> error + int list" where
  "clip_and_redistribute hist clipCount =
     (case clip_hist hist clipCount of (clipped, excess) \<Rightarrow> redistribute clipped excess)"

text \<open>Lines 80-81: one entry of the table, from the running sum.\<close>

definition cdf_entry :: "int \<Rightarrow> int \<Rightarrow> u8" where
  "cdf_entry cumSum numPixelsPerTile =
     word_of_int (min 255 (mul32 cumSum 255 sdiv numPixelsPerTile))"

text \<open>Lines 77-82: the 256 entries in order; \<open>cumSum\<close> is the sum so far.\<close>

fun cdf_loop :: "int list \<Rightarrow> int \<Rightarrow> int \<Rightarrow> u8 list" where
  "cdf_loop [] numPixelsPerTile cumSum = []"
| "cdf_loop (h # hs) numPixelsPerTile cumSum =
     cdf_entry (add32 cumSum h) numPixelsPerTile
       # cdf_loop hs numPixelsPerTile (add32 cumSum h)"

definition build_cdf :: "int list \<Rightarrow> int \<Rightarrow> u8 list" where
  "build_cdf hist numPixelsPerTile = cdf_loop (take 256 hist) numPixelsPerTile 0"

text \<open>Line 76 and the writes of line 80: the table of a tile goes to
  \<open>cdfs[base + i]\<close>.\<close>

fun store_cdf :: "int \<Rightarrow> u8 list \<Rightarrow> u8 list \<Rightarrow> error + u8 list" where
  "store_cdf base [] cdfs = Inr cdfs"
| "store_cdf base (v # vs) cdfs =
     (case vset cdfs base v of Inl e \<Rightarrow> Inl e | Inr cdfs' \<Rightarrow> store_cdf (base + 1) vs cdfs')"

text \<open>Lines 46-82, the body of the loops over the tiles. The division of line 81 is by
  \<open>numPixelsPerTile\<close>.\<close>

definition process_tile ::
  "u8 list \<Rightarrow> int \<Rightarrow> int \<Rightarrow> int \<Rightarrow> int \<Rightarrow> int \<Rightarrow> int \<Rightarrow> int \<Rightarrow> int \<Rightarrow> u8 list \<Rightarrow> error + u8 list" where
  "process_tile data width tilesX tileW tileH numPixelsPerTile clipCount ty tx cdfs =
     (let startX = mul32 tx tileW;
          startY = mul32 ty tileH
      in case build_hist data width startX startY tileW tileH of
           Inl e \<Rightarrow> Inl e
         | Inr hist \<Rightarrow>
             (case clip_and_redistribute hist clipCount of
                Inl e \<Rightarrow> Inl e
              | Inr hist' \<Rightarrow>
                  if numPixelsPerTile = 0 then Inl DivisionByZero
                  else store_cdf (mul32 (add32 (mul32 ty tilesX) tx) 256)
                         (build_cdf hist' numPixelsPerTile) cdfs))"

text \<open>Lines 44-84.\<close>

definition build_cdfs ::
  "u8 list \<Rightarrow> int \<Rightarrow> int \<Rightarrow> int \<Rightarrow> int \<Rightarrow> int \<Rightarrow> int \<Rightarrow> int \<Rightarrow> u8 list \<Rightarrow> error + u8 list" where
  "build_cdfs data width tilesX tilesY tileW tileH numPixelsPerTile clipCount cdfs =
     for_range 0 tilesY
       (\<lambda>ty. for_range 0 tilesX
          (process_tile data width tilesX tileW tileH numPixelsPerTile clipCount ty))
       cdfs"

subsection \<open>Step 2: bilinear interpolation\<close>

text \<open>Lines 96-97.\<close>

definition tile_coord :: "int \<Rightarrow> int \<Rightarrow> double" where
  "tile_coord x tileW = dsub (ddiv (i2d x) (i2d tileW)) (1 / 2)"

text \<open>Lines 103-104: the clamp of the tile index \<open>t\<close> that the cast of line 99 or 100
  gave.\<close>

definition clamp_tile :: "int \<Rightarrow> int \<Rightarrow> int" where
  "clamp_tile t tiles = max 0 (min t (sub32 tiles 2))"

text \<open>Lines 109-112.\<close>

definition weight :: "double \<Rightarrow> int \<Rightarrow> double" where
  "weight f t0 = max 0 (min 1 (dsub f (i2d t0)))"

text \<open>The flat index of lines 115-118.\<close>

definition cdf_index :: "int \<Rightarrow> int \<Rightarrow> int \<Rightarrow> u8 \<Rightarrow> int" where
  "cdf_index tilesX ty tx pixel =
     add32 (mul32 (add32 (mul32 ty tilesX) tx) 256) (uint pixel)"

text \<open>Lines 120-122: \<open>value\<close>.\<close>

definition blend :: "u8 \<Rightarrow> u8 \<Rightarrow> u8 \<Rightarrow> u8 \<Rightarrow> double \<Rightarrow> double \<Rightarrow> double" where
  "blend v00 v01 v10 v11 cax cay =
     (let top = dadd (dmul (u2d v00) (dsub 1 cax)) (dmul (u2d v01) cax);
          bottom = dadd (dmul (u2d v10) (dsub 1 cax)) (dmul (u2d v11) cax)
      in dadd (dmul top (dsub 1 cay)) (dmul bottom cay))"

text \<open>Lines 96-125: the new value of the pixel at \<open>(x, y)\<close> whose value is \<open>pixel\<close>. The
  casts of lines 99 and 100 come first, then the clamps, the four reads in the order of
  lines 115-118, and the cast of lines 124-125 of the clamped \<open>value\<close>.\<close>

definition interp_pixel ::
  "u8 list \<Rightarrow> int \<Rightarrow> int \<Rightarrow> int \<Rightarrow> int \<Rightarrow> int \<Rightarrow> int \<Rightarrow> u8 \<Rightarrow> error + u8" where
  "interp_pixel cdfs tilesX tilesY tileW tileH x y pixel =
     (let fx = tile_coord x tileW;
          fy = tile_coord y tileH
      in (case d2i fx of Inl e \<Rightarrow> Inl e | Inr tx \<Rightarrow>
         (case d2i fy of Inl e \<Rightarrow> Inl e | Inr ty \<Rightarrow>
         (let tx0 = clamp_tile tx tilesX;
              ty0 = clamp_tile ty tilesY;
              tx1 = add32 tx0 1;
              ty1 = add32 ty0 1;
              cax = weight fx tx0;
              cay = weight fy ty0
          in (case vget cdfs (cdf_index tilesX ty0 tx0 pixel) of Inl e \<Rightarrow> Inl e | Inr v00 \<Rightarrow>
             (case vget cdfs (cdf_index tilesX ty0 tx1 pixel) of Inl e \<Rightarrow> Inl e | Inr v01 \<Rightarrow>
             (case vget cdfs (cdf_index tilesX ty1 tx0 pixel) of Inl e \<Rightarrow> Inl e | Inr v10 \<Rightarrow>
             (case vget cdfs (cdf_index tilesX ty1 tx1 pixel) of Inl e \<Rightarrow> Inl e | Inr v11 \<Rightarrow>
                d2u8 (max 0 (min 255 (blend v00 v01 v10 v11 cax cay)))))))))))"

text \<open>Lines 92-125, the body of the loops over the pixels: it reads \<open>data\<close> and
  \<open>cdfs\<close> and writes \<open>output\<close>.\<close>

definition write_pixel ::
  "u8 list \<Rightarrow> u8 list \<Rightarrow> int \<Rightarrow> int \<Rightarrow> int \<Rightarrow> int \<Rightarrow> int \<Rightarrow> int \<Rightarrow> int \<Rightarrow> u8 list \<Rightarrow> error + u8 list" where
  "write_pixel data cdfs width tilesX tilesY tileW tileH y x output =
     (case vget data (add32 (mul32 y width) x) of
        Inl e \<Rightarrow> Inl e
      | Inr pixel \<Rightarrow>
          (case interp_pixel cdfs tilesX tilesY tileW tileH x y pixel of
             Inl e \<Rightarrow> Inl e
           | Inr v \<Rightarrow> vset output (add32 (mul32 y width) x) v))"

text \<open>Lines 90-127.\<close>

definition interpolate ::
  "u8 list \<Rightarrow> u8 list \<Rightarrow> int \<Rightarrow> int \<Rightarrow> int \<Rightarrow> int \<Rightarrow> int \<Rightarrow> int \<Rightarrow> u8 list \<Rightarrow> error + u8 list" where
  "interpolate data cdfs width height tilesX tilesY tileW tileH output =
     for_range 0 height
       (\<lambda>y. for_range 0 width (write_pixel data cdfs width tilesX tilesY tileW tileH y))
       output"

subsection \<open>The function\<close>

text \<open>Line 130: \<open>memcpy(data, output.data(), n)\<close>.\<close>

definition memcpy :: "u8 list \<Rightarrow> u8 list \<Rightarrow> int \<Rightarrow> error + u8 list" where
  "memcpy dst src n =
     (if 0 \<le> n \<and> nat n \<le> length dst \<and> nat n \<le> length src
      then Inr (take (nat n) src @ drop (nat n) dst)
      else Inl OutOfRange)"

text \<open>Line 37.\<close>

definition clip_count :: "double \<Rightarrow> int \<Rightarrow> error + int" where
  "clip_count clipLimit numPixelsPerTile =
     (case d2i (ddiv (dmul clipLimit (i2d numPixelsPerTile)) (i2d 256)) of
        Inl e \<Rightarrow> Inl e
      | Inr c \<Rightarrow> Inr (max 1 c))"

text \<open>What a call leaves behind: the sizes of the vectors it allocated, in order, and
  the caller's buffer (\<open>None\<close> is the null pointer).\<close>

record outcome =
  allocs :: "nat list"
  buffer :: "u8 list option"

definition applyCLAHE ::
  "u8 list option \<Rightarrow> int \<Rightarrow> int \<Rightarrow> int \<Rightarrow> int \<Rightarrow> double \<Rightarrow> error + outcome" where
  "applyCLAHE data width height tilesX tilesY clipLimit =
     (case data of
        None \<Rightarrow> Inr \<lparr>allocs = [], buffer = data\<rparr>
      | Some pixels \<Rightarrow>
          if width \<le> 0 \<or> height \<le> 0 then Inr \<lparr>allocs = [], buffer = data\<rparr>
          else if tilesX \<le> 0 \<or> tilesY \<le> 0 then Inr \<lparr>allocs = [], buffer = data\<rparr>
          else
            let tileW = width sdiv tilesX;
                tileH = height sdiv tilesY
            in if tileW \<le> 0 \<or> tileH \<le> 0 then Inr \<lparr>allocs = [], buffer = data\<rparr>
               else
                 let numPixelsPerTile = mul32 tileW tileH;
                     totalTiles = mul32 tilesX tilesY
                 in (case clip_count clipLimit numPixelsPerTile of Inl e \<Rightarrow> Inl e
                     | Inr clipCount \<Rightarrow>
                    (case valloc (mul32 totalTiles 256) of Inl e \<Rightarrow> Inl e | Inr cdfs0 \<Rightarrow>
                    (case build_cdfs pixels width tilesX tilesY tileW tileH
                            numPixelsPerTile clipCount cdfs0 of Inl e \<Rightarrow> Inl e | Inr cdfs \<Rightarrow>
                    (case valloc (mul32 width height) of Inl e \<Rightarrow> Inl e | Inr output0 \<Rightarrow>
                    (case interpolate pixels cdfs width height tilesX tilesY tileW tileH
                            output0 of Inl e \<Rightarrow> Inl e | Inr output \<Rightarrow>
                    (case memcpy pixels output (mul32 width height) of Inl e \<Rightarrow> Inl e
                     | Inr pixels' \<Rightarrow>
                         Inr \<lparr>allocs = [length cdfs0, length output0],
                              buffer = Some pixels'\<rparr>)))))))"

subsection \<open>Notions used by the properties\<close>

text \<open>The bins that the remainder loop of lines 71-73 increments.\<close>

definition remainder_bins :: "int \<Rightarrow> int set" where
  "remainder_bins r = (\<lambda>i. remainder_bin i r) ` {0..<r}"

text \<open>A valid input whose sizes are \<open>int\<close>s: the validation of lines 25-32 passes, the
  buffer holds \<open>width * height\<close> samples, and neither \<open>width * height\<close> (line 88) nor
  \<open>tilesX * tilesY * 256\<close> (line 41) exceeds \<open>INT_MAX\<close>.\<close>

definition well_sized :: "u8 list \<Rightarrow> int \<Rightarrow> int \<Rightarrow> int \<Rightarrow> int \<Rightarrow> bool" where
  "well_sized data width height tilesX tilesY \<longleftrightarrow>
     0 < width \<and> 0 < height \<and> 0 < tilesX \<and> 0 < tilesY \<and>
     0 < width div tilesX \<and> 0 < height div tilesY \<and>
     width * height < 2147483648 \<and> tilesX * tilesY * 256 < 2147483648 \<and>
     length data = nat (width * height)"

text \<open>The invariant of the histogram loops: 256 bins that are not negative and sum to
  the number \<open>n\<close> of pixels counted so far, the bins outside \<open>S\<close> still empty when every
  pixel counted has its value in \<open>S\<close>.\<close>

definition hist_inv :: "nat set \<Rightarrow> int \<Rightarrow> int list \<Rightarrow> bool" where
  "hist_inv S n h \<longleftrightarrow>
     length h = 256 \<and> (\<forall>b\<in>set h. 0 \<le> b) \<and> sum_list h = n \<and> (\<forall>b<256. b \<notin> S \<longrightarrow> h ! b = 0)"

text \<open>The table that lines 46-82 compute for the tile \<open>(ty, tx)\<close> (empty where they
  fail).\<close>

definition tile_table :: "u8 list \<Rightarrow> int \<Rightarrow> int \<Rightarrow> int \<Rightarrow> int \<Rightarrow> int \<Rightarrow> int \<Rightarrow> u8 list" where
  "tile_table data width tileW tileH clipCount ty tx =
     (case build_hist data width (mul32 tx tileW) (mul32 ty tileH) tileW tileH of
        Inl e \<Rightarrow> []
      | Inr hist \<Rightarrow>
          (case clip_and_redistribute hist clipCount of
             Inl e \<Rightarrow> []
           | Inr hist' \<Rightarrow> build_cdf hist' (mul32 tileW tileH)))"

text \<open>The tables of the tiles \<open>0, \<dots>, n - 1\<close> stand in \<open>cdfs\<close>, the table of tile \<open>t\<close> at
  \<open>t * 256\<close>.\<close>

definition filled :: "(int \<Rightarrow> u8 list) \<Rightarrow> int \<Rightarrow> u8 list \<Rightarrow> bool" where
  "filled table n cdfs \<longleftrightarrow>
     (\<forall>t i. 0 \<le> t \<and> t < n \<and> 0 \<le> i \<and> i < 256 \<longrightarrow> cdfs ! nat (t * 256 + i) = table t ! nat i)"

text \<open>The vector \<open>cdfs\<close> as step 1 (lines 39-84) leaves it (empty where the cast of
  line 37 is undefined or step 1 fails).\<close>

definition step1_tables :: "u8 list \<Rightarrow> int \<Rightarrow> int \<Rightarrow> int \<Rightarrow> int \<Rightarrow> double \<Rightarrow> u8 list" where
  "step1_tables data width height tilesX tilesY clipLimit =
     (let tileW = width sdiv tilesX;
          tileH = height sdiv tilesY;
          numPixelsPerTile = mul32 tileW tileH
      in case clip_count clipLimit numPixelsPerTile of
           Inl e \<Rightarrow> []
         | Inr clipCount \<Rightarrow>
             (case valloc (mul32 (mul32 tilesX tilesY) 256) of
                Inl e \<Rightarrow> []
              | Inr cdfs0 \<Rightarrow>
                  (case build_cdfs data width tilesX tilesY tileW tileH numPixelsPerTile
                          clipCount cdfs0 of
                     Inl e \<Rightarrow> []
                   | Inr cdfs \<Rightarrow> cdfs)))"

text \<open>The byte that lines 124-125 store for \<open>value\<close>: the clamp to 0..255, truncated.\<close>

definition stored_byte :: "double \<Rightarrow> u8" where
  "stored_byte val = word_of_int (towards_zero (max 0 (min 255 val)))"

text \<open>The value that lines 96-125 compute for a pixel when the casts of lines 99-100 are
  defined and the four reads of lines 115-118 are inside the table.\<close>

definition interp_value ::
  "u8 list \<Rightarrow> int \<Rightarrow> int \<Rightarrow> int \<Rightarrow> int \<Rightarrow> int \<Rightarrow> int \<Rightarrow> u8 \<Rightarrow> u8" where
  "interp_value cdfs tilesX tilesY tileW tileH x y pixel =
     (let fx = tile_coord x tileW;
          fy = tile_coord y tileH;
          tx0 = clamp_tile (towards_zero fx) tilesX;
          ty0 = clamp_tile (towards_zero fy) tilesY
      in stored_byte
           (blend (cdfs ! nat (cdf_index tilesX ty0 tx0 pixel))
                  (cdfs ! nat (cdf_index tilesX ty0 (add32 tx0 1) pixel))
                  (cdfs ! nat (cdf_index tilesX (add32 ty0 1) tx0 pixel))
                  (cdfs ! nat (cdf_index tilesX (add32 ty0 1) (add32 tx0 1) pixel))
                  (weight fx tx0) (weight fy ty0)))"

text \<open>The pixels \<open>0, \<dots>, n - 1\<close> of the output buffer hold their values.\<close>

definition written :: "(int \<Rightarrow> u8) \<Rightarrow> nat \<Rightarrow> int \<Rightarrow> u8 list \<Rightarrow> bool" where
  "written f len n out \<longleftrightarrow>
     length out = len \<and> (\<forall>j. 0 \<le> j \<and> j < n \<longrightarrow> out ! nat j = f j)"


text \<open>The table \<open>tile_table\<close> of a tile of \<open>numPixelsPerTile\<close> pixels that all have the
  value \<open>v\<close>.\<close>

definition uniform_table :: "u8 \<Rightarrow> int \<Rightarrow> int \<Rightarrow> u8 list" where
  "uniform_table v numPixelsPerTile clipCount =
     (case clip_and_redistribute ((replicate 256 0)[unat v := numPixelsPerTile]) clipCount of
        Inl e \<Rightarrow> []
      | Inr hist' \<Rightarrow> build_cdf hist' numPixelsPerTile)"

text \<open>Bin \<open>b\<close> of the histogram of such a tile after clipping and redistribution.\<close>

definition uniform_bin :: "u8 \<Rightarrow> int \<Rightarrow> int \<Rightarrow> nat \<Rightarrow> int" where
  "uniform_bin v numPixelsPerTile clipCount b =
     (let excess = max 0 (numPixelsPerTile - clipCount)
      in (if b = unat v then min clipCount numPixelsPerTile else 0) + excess div 256
         + (if int b \<in> remainder_bins (excess mod 256) then 1 else 0))"

text \<open>The value of lines 96-125 at \<open>(x, y)\<close> when the four table entries read are all
  \<open>c\<close>.\<close>

definition uniform_pixel :: "u8 \<Rightarrow> int \<Rightarrow> int \<Rightarrow> int \<Rightarrow> int \<Rightarrow> int \<Rightarrow> int \<Rightarrow> u8" where
  "uniform_pixel c tilesX tilesY tileW tileH x y =
     (let fx = tile_coord x tileW;
          fy = tile_coord y tileH
      in stored_byte
           (blend c c c c (weight fx (clamp_tile (towards_zero fx) tilesX))
                          (weight fy (clamp_tile (towards_zero fy) tilesY))))"

section \<open>Properties\<close>

subsection \<open>Loops\<close>

text \<open>The rule for a loop whose body keeps an invariant and never fails; a loop whose first
  iteration fails; what every successful iteration preserves; loops with equal bodies.\<close>

lemma for_steps_rule:
  assumes "I lo s"
    and "\<And>i t. lo \<le> i \<Longrightarrow> i < lo + int n \<Longrightarrow> I i t \<Longrightarrow> \<exists>t'. body i t = Inr t' \<and> I (i + 1) t'"
  shows "\<exists>s'. for_steps n lo body s = Inr s' \<and> I (lo + int n) s'"
  using assms
proof (induction n arbitrary: lo s)
  case 0
  then show ?case by simp
next
  case (Suc n)
  from Suc.prems(2)[of lo s] Suc.prems(1)
  obtain t where t: "body lo s = Inr t" "I (lo + 1) t" by auto
  have "\<exists>s'. for_steps n (lo + 1) body t = Inr s' \<and> I (lo + 1 + int n) s'"
  proof (rule Suc.IH[OF t(2)])
    fix i u assume "lo + 1 \<le> i" "i < lo + 1 + int n" "I i u"
    then show "\<exists>t'. body i u = Inr t' \<and> I (i + 1) t'"
      using Suc.prems(2)[of i u] by simp
  qed
  then show ?case using t by (simp add: algebra_simps)
qed

lemma for_range_rule:
  assumes "lo \<le> hi" "I lo s"
    and "\<And>i t. lo \<le> i \<Longrightarrow> i < hi \<Longrightarrow> I i t \<Longrightarrow> \<exists>t'. body i t = Inr t' \<and> I (i + 1) t'"
  shows "\<exists>s'. for_range lo hi body s = Inr s' \<and> I hi s'"
proof -
  have "\<exists>s'. for_steps (nat (hi - lo)) lo body s = Inr s' \<and> I (lo + int (nat (hi - lo))) s'"
    by (rule for_steps_rule[where I = I, OF assms(2)]) (use assms in auto)
  then show ?thesis using assms(1) by (simp add: for_range_def)
qed

lemma for_range_first_fails:
  assumes "lo < hi" "body lo s = Inl e"
  shows "for_range lo hi body s = Inl e"
proof -
  obtain n where "nat (hi - lo) = Suc n" using assms(1) by (cases "nat (hi - lo)") auto
  then show ?thesis using assms(2) by (simp add: for_range_def)
qed

lemma for_steps_preserves:
  assumes "for_steps n lo body s = Inr s'" "P s"
    and "\<And>i t t'. body i t = Inr t' \<Longrightarrow> P t \<Longrightarrow> P t'"
  shows "P s'"
  using assms(1,2)
proof (induction n arbitrary: lo s)
  case 0
  then show ?case by simp
next
  case (Suc n)
  then obtain t where t: "body lo s = Inr t" "for_steps n (lo + 1) body t = Inr s'"
    by (auto split: sum.splits)
  then show ?case using Suc.IH[OF t(2)] assms(3)[OF t(1) Suc.prems(2)] by simp
qed

lemma for_range_preserves:
  assumes "for_range lo hi body s = Inr s'" "P s"
    and "\<And>i t t'. body i t = Inr t' \<Longrightarrow> P t \<Longrightarrow> P t'"
  shows "P s'"
  using for_steps_preserves[of "nat (hi - lo)" lo body s s' P] assms by (simp add: for_range_def)

lemma for_steps_cong:
  assumes "\<And>i t. lo \<le> i \<Longrightarrow> i < lo + int n \<Longrightarrow> body i t = body' i t"
  shows "for_steps n lo body s = for_steps n lo body' s"
  using assms
proof (induction n arbitrary: lo s)
  case 0
  then show ?case by simp
next
  case (Suc n)
  have "body lo s = body' lo s" using Suc.prems[of lo s] by simp
  moreover have "for_steps n (lo + 1) body t = for_steps n (lo + 1) body' t" for t
    by (rule Suc.IH) (use Suc.prems in simp)
  ultimately show ?case by (simp cong: sum.case_cong)
qed

lemma for_range_cong:
  assumes "\<And>i t. lo \<le> i \<Longrightarrow> i < hi \<Longrightarrow> body i t = body' i t"
  shows "for_range lo hi body s = for_range lo hi body' s"
  unfolding for_range_def by (rule for_steps_cong) (use assms in \<open>simp split: if_splits\<close>)

subsection \<open>Arithmetic that does not wrap, accesses inside a vector\<close>

lemma wrap32_id: "- 2147483648 \<le> k \<Longrightarrow> k < 2147483648 \<Longrightarrow> wrap32 k = k"
  by (simp add: wrap32_def)

lemma mul32_small: "0 \<le> a * b \<Longrightarrow> a * b < 2147483648 \<Longrightarrow> mul32 a b = a * b"
  by (simp add: mul32_def wrap32_id)

lemma add32_small: "0 \<le> a + b \<Longrightarrow> a + b < 2147483648 \<Longrightarrow> add32 a b = a + b"
  by (simp add: add32_def wrap32_id)

lemma sdiv_pos: "0 < a \<Longrightarrow> 0 < b \<Longrightarrow> a sdiv b = a div (b::int)"
  by (simp add: signed_divide_int_def sgn_if)

lemma int_div_less:
  assumes "0 < (r::int)" "a < k * r"
  shows "a div r < k"
proof -
  have "a div r * r + a mod r = a" by simp
  moreover have "0 \<le> a mod r" using assms(1) by simp
  ultimately have "a div r * r < k * r" using assms(2) by linarith
  then show ?thesis using assms(1) by (simp add: mult_less_cancel_right)
qed

lemma uint8_range: "0 \<le> uint (p::u8) \<and> uint p < 256"
  using uint_lt2p[of p] by simp

lemma vget_ok: "0 \<le> i \<Longrightarrow> nat i < length xs \<Longrightarrow> vget xs i = Inr (xs ! nat i)"
  by (simp add: vget_def)

lemma vset_ok: "0 \<le> i \<Longrightarrow> nat i < length xs \<Longrightarrow> vset xs i v = Inr (xs[nat i := v])"
  by (simp add: vset_def)

lemma vget_error: "vget xs i = Inl e \<Longrightarrow> e = OutOfRange"
  by (simp add: vget_def split: if_splits)

lemma pixel_index:
  assumes "0 \<le> y" "y < height" "0 \<le> x" "x < width" "width * height < 2147483648"
  shows "add32 (mul32 y width) x = y * width + x" "0 \<le> y * width + x" "y * width + x < width * height"
proof -
  have "y * width \<le> (height - 1) * width" using assms by (intro mult_right_mono) auto
  then have lt: "y * width + x < width * height" using assms by (simp add: algebra_simps)
  have yw: "0 \<le> y * width" using assms by simp
  then have "mul32 y width = y * width"
    unfolding mul32_def using lt assms by (intro wrap32_id) linarith+
  moreover have "wrap32 (y * width + x) = y * width + x"
    using lt assms yw by (intro wrap32_id) linarith+
  ultimately show "add32 (mul32 y width) x = y * width + x" by (simp add: add32_def)
  show "0 \<le> y * width + x" using yw assms by simp
  show "y * width + x < width * height" by fact
qed

lemma tile_fits:
  assumes "0 < (w::int)" "0 < n" "0 \<le> t" "t < n"
  shows "0 \<le> t * (w div n)" "t * (w div n) + w div n \<le> w"
proof -
  have d0: "0 \<le> w div n" using assms by (simp add: pos_imp_zdiv_nonneg_iff)
  show "0 \<le> t * (w div n)" using assms d0 by simp
  have "(t + 1) * (w div n) \<le> n * (w div n)" using assms d0 by (intro mult_right_mono) auto
  also have "\<dots> \<le> w"
  proof -
    have "0 \<le> w mod n" using assms by simp
    then show ?thesis using mult_div_mod_eq[of n w] by linarith
  qed
  finally show "t * (w div n) + w div n \<le> w" by (simp add: algebra_simps)
qed

lemma tile_number:
  assumes "0 \<le> (ty::int)" "ty < tilesY" "0 \<le> (tx::int)" "tx < tilesX"
  shows "0 \<le> ty * tilesX + tx" "ty * tilesX + tx < tilesX * tilesY"
    "ty * tilesX + tx + 1 \<le> tilesX * tilesY"
proof -
  have px: "0 < tilesX" using assms by linarith
  then have "0 \<le> ty * tilesX" using assms by simp
  then show "0 \<le> ty * tilesX + tx" using assms by simp
  have "ty * tilesX \<le> (tilesY - 1) * tilesX" using assms px by (intro mult_right_mono) auto
  then show "ty * tilesX + tx < tilesX * tilesY" using assms by (simp add: algebra_simps)
  then show "ty * tilesX + tx + 1 \<le> tilesX * tilesY" by simp
qed

lemma tile_base:
  assumes "0 \<le> ty" "ty < tilesY" "0 \<le> tx" "tx < tilesX" "tilesX * tilesY * 256 < 2147483648"
  shows "mul32 (add32 (mul32 ty tilesX) tx) 256 = (ty * tilesX + tx) * 256"
proof -
  note t = tile_number[OF assms(1-4)]
  have px: "0 < tilesX" using assms by linarith
  then have yx: "0 \<le> ty * tilesX" using assms by simp
  have "mul32 ty tilesX = ty * tilesX" using yx t assms by (intro mul32_small) linarith+
  moreover have "add32 (ty * tilesX) tx = ty * tilesX + tx" using t assms by (intro add32_small) linarith+
  moreover have "mul32 (ty * tilesX + tx) 256 = (ty * tilesX + tx) * 256"
  proof (rule mul32_small)
    show "0 \<le> (ty * tilesX + tx) * 256" using t by simp
    have "(ty * tilesX + tx) * 256 < tilesX * tilesY * 256" using t by simp
    then show "(ty * tilesX + tx) * 256 < 2147483648" using assms by linarith
  qed
  ultimately show ?thesis by simp
qed

lemma tile_div_mod:
  assumes "0 \<le> (tx::int)" "tx < tilesX"
  shows "(ty * tilesX + tx) div tilesX = ty" "(ty * tilesX + tx) mod tilesX = tx"
  using assms by simp_all

subsection \<open>The remainder loop (lines 71-73)\<close>

lemma remainder_bin_eq:
  "0 \<le> i \<Longrightarrow> i < r \<Longrightarrow> r < 256 \<Longrightarrow> remainder_bin i r = (i * 256) div r"
  by (simp add: remainder_bin_def mul32_def wrap32_id signed_divide_int_def sgn_if)

lemma remainder_bin_range:
  assumes "0 \<le> i" "i < r" "r < 256"
  shows "0 \<le> remainder_bin i r \<and> remainder_bin i r \<le> 255"
proof -
  have "(i * 256) div r < 256"
    using assms by (intro int_div_less) auto
  moreover have "0 \<le> (i * 256) div r" using assms by (simp add: pos_imp_zdiv_nonneg_iff)
  ultimately show ?thesis using assms by (simp add: remainder_bin_eq)
qed

lemma remainder_bin_strict_mono:
  assumes "0 \<le> i" "i < j" "j < r" "r < 256"
  shows "remainder_bin i r < remainder_bin j r"
proof -
  have "i * 256 + r \<le> j * 256" using assms by simp
  then have "(i * 256 + r) div r \<le> (j * 256) div r"
    using assms by (intro zdiv_mono1) auto
  moreover have "(i * 256 + r) div r = (i * 256) div r + 1" using assms by simp
  ultimately show ?thesis using assms by (simp add: remainder_bin_eq)
qed

lemma remainder_bin_inj:
  assumes "0 < r" "r < 256"
  shows "inj_on (\<lambda>i. remainder_bin i r) {0..<r}"
proof (rule inj_onI)
  fix i j assume ij: "i \<in> {0..<r}" "j \<in> {0..<r}" and eq: "remainder_bin i r = remainder_bin j r"
  show "i = j"
  proof (rule ccontr)
    assume "i \<noteq> j"
    then consider "i < j" | "j < i" by linarith
    then show False
    proof cases
      case 1
      then show False using remainder_bin_strict_mono[of i j r] ij eq assms by simp
    next
      case 2
      then show False using remainder_bin_strict_mono[of j i r] ij eq assms by simp
    qed
  qed
qed

lemma remainder_bins_empty [simp]: "remainder_bins 0 = {}"
  by (simp add: remainder_bins_def)

lemma remainder_bins_range:
  assumes "0 \<le> r" "r < 256" "k \<in> remainder_bins r"
  shows "0 \<le> k \<and> k \<le> 255"
proof -
  from assms(3) obtain i where i: "0 \<le> i" "i < r" "k = remainder_bin i r"
    unfolding remainder_bins_def by auto
  then show ?thesis using remainder_bin_range[of i r] assms by simp
qed

lemma remainder_bins_le:
  assumes "0 < r" "r < 256" "k \<in> remainder_bins r"
  shows "k \<le> (r - 1) * 256 div r"
proof -
  from assms(3) obtain i where i: "0 \<le> i" "i < r" "k = remainder_bin i r"
    unfolding remainder_bins_def by auto
  then have "k = i * 256 div r" using assms by (simp add: remainder_bin_eq)
  moreover have "i * 256 div r \<le> (r - 1) * 256 div r"
    using i assms by (intro zdiv_mono1) auto
  ultimately show ?thesis by simp
qed

lemma card_remainder_bins: "0 < r \<Longrightarrow> r < 256 \<Longrightarrow> card (remainder_bins r) = nat r"
  by (simp add: remainder_bins_def card_image remainder_bin_inj)

lemma card_remainder_bins0: "0 \<le> r \<Longrightarrow> r < 256 \<Longrightarrow> int (card (remainder_bins r)) = r"
  by (cases "r = 0") (simp_all add: card_remainder_bins)

lemma count_remainder_bins:
  assumes "0 \<le> r" "r < 256" and n: "n = (256::nat)"
  shows "(\<Sum>b<n. if int b \<in> remainder_bins r then 1 else 0) = r"
proof -
  let ?B = "{b\<in>{..<n}. int b \<in> remainder_bins r}"
  have "int ` ?B = remainder_bins r"
  proof (intro equalityI subsetI)
    fix k assume k: "k \<in> remainder_bins r"
    then have "0 \<le> k" "k \<le> 255" using remainder_bins_range[OF assms(1,2)] by auto
    then have "nat k < n" "int (nat k) = k" using n by simp_all
    then have "nat k \<in> ?B" using k by simp
    then have "int (nat k) \<in> int ` ?B" by (rule imageI)
    then show "k \<in> int ` ?B" using \<open>int (nat k) = k\<close> by simp
  next
    fix k assume "k \<in> int ` ?B"
    then show "k \<in> remainder_bins r" by blast
  qed
  moreover have "card (int ` ?B) = card ?B"
    by (rule card_image) (simp add: inj_on_def)
  ultimately have "card (remainder_bins r) = card ?B" by simp
  moreover have "(\<Sum>b<n. if int b \<in> remainder_bins r then 1 else (0::int)) = int (card ?B)"
  proof -
    have "{..<n} \<inter> {b. int b \<in> remainder_bins r} = ?B" by blast
    then show ?thesis by (simp add: sum.If_cases)
  qed
  ultimately show ?thesis using card_remainder_bins0[OF assms(1,2)] by simp
qed

lemma add_remainder_bins:
  assumes r: "0 \<le> r" "r < 256" and len: "length hist = 256"
  shows "\<exists>hist'. add_remainder r hist = Inr hist' \<and> length hist' = 256 \<and>
           (\<forall>b<256. hist' ! b =
              (if int b \<in> remainder_bins r then add32 (hist ! b) 1 else hist ! b))"
proof -
  let ?bin = "\<lambda>i. remainder_bin i r"
  let ?I = "\<lambda>k h. length h = 256 \<and>
      (\<forall>b<256. h ! b = (if int b \<in> ?bin ` {0..<k} then add32 (hist ! b) 1 else hist ! b))"
  have "\<exists>s'. for_range 0 r (bump_bin r) hist = Inr s' \<and> ?I r s'"
  proof (rule for_range_rule[where I = ?I])
    show "0 \<le> r" by fact
    show "?I 0 hist" using len by simp
  next
    fix k h assume k: "0 \<le> k" "k < r" and inv: "?I k h"
    have rng: "0 \<le> ?bin k" "?bin k \<le> 255"
      using remainder_bin_range[of k r] k r by auto
    have fresh: "?bin k \<notin> ?bin ` {0..<k}"
    proof
      assume "?bin k \<in> ?bin ` {0..<k}"
      then obtain i where i: "0 \<le> i" "i < k" "?bin i = ?bin k" by auto
      then show False using remainder_bin_strict_mono[of i k r] k r by simp
    qed
    have old: "h ! nat (?bin k) = hist ! nat (?bin k)"
      using inv rng fresh by simp
    have step: "bump_bin r k h = Inr (h[nat (?bin k) := add32 (hist ! nat (?bin k)) 1])"
      using inv rng old by (simp add: bump_bin_def vget_def vset_def)
    have set_eq: "{0..<k + 1} = insert k {0..<k}" using k by auto
    have "?I (k + 1) (h[nat (?bin k) := add32 (hist ! nat (?bin k)) 1])"
    proof (intro conjI allI impI)
      show "length (h[nat (?bin k) := add32 (hist ! nat (?bin k)) 1]) = 256" using inv by simp
    next
      fix b :: nat assume b: "b < 256"
      show "h[nat (?bin k) := add32 (hist ! nat (?bin k)) 1] ! b =
          (if int b \<in> ?bin ` {0..<k + 1} then add32 (hist ! b) 1 else hist ! b)"
      proof (cases "b = nat (?bin k)")
        case True
        then have "int b = ?bin k" using rng by simp
        then show ?thesis using True inv b by (simp add: set_eq)
      next
        case False
        then have "int b \<noteq> ?bin k" using rng by auto
        then show ?thesis using False inv b by (simp add: set_eq)
      qed
    qed
    then show "\<exists>t'. bump_bin r k h = Inr t' \<and> ?I (k + 1) t'" using step by simp
  qed
  then show ?thesis by (simp add: add_remainder_def remainder_bins_def)
qed

subsection \<open>Clipping and redistribution (lines 57-73)\<close>

text \<open>For a histogram whose bins are not negative and whose sum is an \<open>int\<close>, no operation of
  lines 57-73 wraps, and the result is given bin by bin.\<close>

lemma sum_nth_le_sum_list:
  fixes xs :: "int list"
  assumes "\<forall>b\<in>set xs. 0 \<le> b" "n \<le> length xs"
  shows "(\<Sum>j<n. xs ! j) \<le> sum_list xs"
proof -
  have "sum_list xs = (\<Sum>j<length xs. xs ! j)"
    by (simp add: sum_list_sum_nth atLeast0LessThan)
  moreover have "(\<Sum>j<n. xs ! j) \<le> (\<Sum>j<length xs. xs ! j)"
    using assms by (intro sum_mono2) auto
  ultimately show ?thesis by simp
qed

lemma nth_le_sum_list:
  fixes h :: "int list"
  assumes "\<forall>b\<in>set h. 0 \<le> b" "p < length h"
  shows "h ! p \<le> sum_list h"
proof -
  have "sum_list h = (\<Sum>j<length h. h ! j)" by (simp add: sum_list_sum_nth atLeast0LessThan)
  moreover have "h ! p \<le> (\<Sum>j<length h. h ! j)"
    using assms by (intro member_le_sum) auto
  ultimately show ?thesis by simp
qed

lemma sum_list_bump:
  fixes h :: "int list"
  assumes "p < length h"
  shows "sum_list (h[p := h ! p + 1]) = sum_list h + 1"
  using assms
proof (induction h arbitrary: p)
  case Nil
  then show ?case by simp
next
  case (Cons a h)
  then show ?case by (cases p) simp_all
qed

lemma clip_fold:
  fixes hist :: "int list"
  assumes nonneg: "\<forall>b\<in>set hist. 0 \<le> b" and total: "sum_list hist < 2147483648"
    and c: "0 \<le> c" and n: "n \<le> length hist"
  shows "\<exists>h'. fold (clip_bin c) [0..<n] (hist, 0) = (h', \<Sum>j<n. max 0 (hist ! j - c)) \<and>
           length h' = length hist \<and>
           (\<forall>j<length hist. h' ! j = (if j < n then min c (hist ! j) else hist ! j))"
  using n
proof (induction n)
  case 0
  then show ?case by simp
next
  case (Suc n)
  then obtain h' where h': "fold (clip_bin c) [0..<n] (hist, 0) = (h', \<Sum>j<n. max 0 (hist ! j - c))"
    "length h' = length hist"
    "\<forall>j<length hist. h' ! j = (if j < n then min c (hist ! j) else hist ! j)"
    by auto
  let ?e = "\<Sum>j<n. max 0 (hist ! j - c)"
  have n: "n < length hist" using Suc.prems by simp
  have hn: "h' ! n = hist ! n" using h'(3) n by simp
  have pos: "0 \<le> hist ! n" using nonneg n by simp
  have e0: "0 \<le> ?e" by (intro sum_nonneg) simp
  have "?e \<le> (\<Sum>j<n. hist ! j)"
    using nonneg c n by (intro sum_mono) (auto simp: max_def)
  then have "?e + hist ! n \<le> (\<Sum>j<Suc n. hist ! j)" by simp
  also have "\<dots> \<le> sum_list hist" using sum_nth_le_sum_list[OF nonneg, of "Suc n"] n by simp
  finally have bound: "?e + hist ! n < 2147483648" using total by simp
  show ?case
  proof (cases "c < hist ! n")
    case True
    have "sub32 (hist ! n) c = hist ! n - c"
      using True c bound e0 by (simp add: sub32_def wrap32_id)
    moreover have "add32 ?e (hist ! n - c) = ?e + (hist ! n - c)"
      using True c bound e0 by (simp add: add32_def wrap32_id)
    ultimately have "fold (clip_bin c) [0..<Suc n] (hist, 0) =
        (h'[n := c], \<Sum>j<Suc n. max 0 (hist ! j - c))"
      using h'(1) hn True by (simp add: clip_bin_def max_def)
    moreover have "\<forall>j<length hist. h'[n := c] ! j = (if j < Suc n then min c (hist ! j) else hist ! j)"
      using h'(2,3) True by (auto simp: nth_list_update min_def less_Suc_eq)
    ultimately show ?thesis using h'(2) by simp
  next
    case False
    then have "fold (clip_bin c) [0..<Suc n] (hist, 0) = (h', \<Sum>j<Suc n. max 0 (hist ! j - c))"
      using h'(1) hn by (simp add: clip_bin_def max_def)
    moreover have "\<forall>j<length hist. h' ! j = (if j < Suc n then min c (hist ! j) else hist ! j)"
      using h'(3) False by (auto simp: min_def less_Suc_eq)
    ultimately show ?thesis using h'(2) by simp
  qed
qed

lemma clip_hist_eq:
  fixes hist :: "int list"
  assumes "length hist = 256" "\<forall>b\<in>set hist. 0 \<le> b" "sum_list hist < 2147483648" "0 \<le> c"
  shows "clip_hist hist c = (map (min c) hist, sum_list (map (\<lambda>h. max 0 (h - c)) hist))"
proof -
  from clip_fold[OF assms(2,3,4), of 256] assms(1)
  obtain h' where h': "fold (clip_bin c) [0..<256] (hist, 0) = (h', \<Sum>j<256. max 0 (hist ! j - c))"
    "length h' = 256" "\<forall>j<256. h' ! j = min c (hist ! j)"
    by auto
  have "h' = map (min c) hist"
    using h'(2,3) assms(1) by (intro nth_equalityI) auto
  moreover have "sum_list (map (\<lambda>h. max 0 (h - c)) hist) = (\<Sum>j<256. max 0 (hist ! j - c))"
    using assms(1) by (simp add: sum_list_sum_nth atLeast0LessThan)
  ultimately show ?thesis using h'(1) by (simp add: clip_hist_def)
qed

lemma increment_fold:
  fixes hist :: "int list"
  assumes "n \<le> length hist"
  shows "fold (\<lambda>i h. h[i := add32 (h ! i) inc]) [0..<n] hist =
           map (\<lambda>h. add32 h inc) (take n hist) @ drop n hist"
  using assms
proof (induction n)
  case 0
  then show ?case by simp
next
  case (Suc n)
  then have n: "n < length hist" by simp
  have "(map (\<lambda>h. add32 h inc) (take n hist) @ drop n hist) ! n = hist ! n"
    using n by (simp add: nth_append)
  moreover have "(map (\<lambda>h. add32 h inc) (take n hist) @ drop n hist)[n := v] =
      map (\<lambda>h. add32 h inc) (take n hist) @ v # drop (Suc n) hist" for v
    using n by (simp add: list_update_append Cons_nth_drop_Suc[symmetric] )
  ultimately show ?case using Suc n by (simp add: take_Suc_conv_app_nth)
qed

lemma add_increment_eq:
  "length hist = 256 \<Longrightarrow> add_increment inc hist = map (\<lambda>h. add32 h inc) hist"
  using increment_fold[of 256 hist inc] by (simp add: add_increment_def)

lemma min_plus_excess_le:
  fixes hist :: "int list"
  assumes nonneg: "\<forall>b\<in>set hist. 0 \<le> b" and c: "0 \<le> c" and b: "b < length hist"
  shows "min c (hist ! b) + sum_list (map (\<lambda>h. max 0 (h - c)) hist) \<le> sum_list hist"
proof -
  have split: "sum_list hist = sum_list (map (min c) hist) + sum_list (map (\<lambda>h. max 0 (h - c)) hist)"
    by (induction hist) (auto simp: min_def max_def)
  have "sum_list (map (min c) hist) = (\<Sum>j<length hist. min c (hist ! j))"
    by (simp add: sum_list_sum_nth atLeast0LessThan)
  moreover have "min c (hist ! b) \<le> (\<Sum>j<length hist. min c (hist ! j))"
    using nonneg c b by (intro member_le_sum) (auto simp: min_def)
  ultimately show ?thesis using split by simp
qed

lemma clip_split_sum:
  fixes hist :: "int list"
  shows "sum_list (map (min c) hist) + sum_list (map (\<lambda>h. max 0 (h - c)) hist) = sum_list hist"
  by (induction hist) (auto simp: min_def max_def)

lemma clip_and_redistribute_eq:
  fixes hist :: "int list"
  assumes len: "length hist = 256" and nonneg: "\<forall>b\<in>set hist. 0 \<le> b"
    and total: "sum_list hist < 2147483648" and c: "0 \<le> c"
  shows "\<exists>hist'. clip_and_redistribute hist c = Inr hist' \<and> length hist' = 256 \<and>
     (\<forall>b<256. hist' ! b =
        min c (hist ! b) + sum_list (map (\<lambda>h. max 0 (h - c)) hist) div 256
        + (if int b \<in> remainder_bins (sum_list (map (\<lambda>h. max 0 (h - c)) hist) mod 256)
           then 1 else 0))"
proof -
  let ?e = "sum_list (map (\<lambda>h. max 0 (h - c)) hist)"
  let ?inc = "?e div 256"
  let ?r = "?e mod 256"
  have e0: "0 \<le> ?e" by (intro sum_list_nonneg) auto
  have sd: "?e sdiv 256 = ?inc" "?e smod 256 = ?r"
    using e0 by (simp_all add: signed_divide_int_def signed_modulo_int_def sgn_if)
  have r: "0 \<le> ?r" "?r < 256" by simp_all
  have inc0: "0 \<le> ?inc" using e0 by simp
  have e_split: "?e = 256 * ?inc + ?r" by simp
  have len2: "length (map (\<lambda>h. add32 h ?inc) (map (min c) hist)) = 256" using len by simp
  from add_remainder_bins[OF r len2]
  obtain hist' where hist': "add_remainder ?r (map (\<lambda>h. add32 h ?inc) (map (min c) hist)) = Inr hist'"
    "length hist' = 256"
    "\<forall>b<256. hist' ! b = (if int b \<in> remainder_bins ?r
        then add32 (map (\<lambda>h. add32 h ?inc) (map (min c) hist) ! b) 1
        else map (\<lambda>h. add32 h ?inc) (map (min c) hist) ! b)"
    by blast
  have run: "clip_and_redistribute hist c = Inr hist'"
    using hist'(1) len
    by (simp add: clip_and_redistribute_def clip_hist_eq[OF len nonneg total c]
        redistribute_def sd add_increment_eq)
  have vals: "hist' ! b = min c (hist ! b) + ?inc + (if int b \<in> remainder_bins ?r then 1 else 0)"
    if b: "b < 256" for b
  proof -
    have hb: "0 \<le> hist ! b" using nonneg b len by simp
    have m0: "0 \<le> min c (hist ! b)" using hb c by simp
    have le: "min c (hist ! b) + ?e \<le> sum_list hist"
      using min_plus_excess_le[OF nonneg c] b len by simp
    have ie: "?inc \<le> ?e" using e0 by (cases "?e = 0") (simp_all add: int_div_le_self)
    have a1: "add32 (min c (hist ! b)) ?inc = min c (hist ! b) + ?inc"
      unfolding add32_def by (rule wrap32_id) (use le total m0 inc0 ie in linarith)+
    show ?thesis
    proof (cases "int b \<in> remainder_bins ?r")
      case True
      then have "?r \<noteq> 0" by auto
      then have "1 \<le> ?r" using r by linarith
      then have "?inc + 1 \<le> ?e" using e_split inc0 by linarith
      then have "add32 (min c (hist ! b) + ?inc) 1 = min c (hist ! b) + ?inc + 1"
        unfolding add32_def by (intro wrap32_id) (use le total m0 inc0 in linarith)+
      then show ?thesis using hist'(3) b len True a1 by simp
    next
      case False
      then show ?thesis using hist'(3) b len a1 by simp
    qed
  qed
  show ?thesis using run hist'(2) vals by blast
qed

lemma clip_and_redistribute_total:
  fixes hist :: "int list"
  assumes len: "length hist = 256" and nonneg: "\<forall>b\<in>set hist. 0 \<le> b"
    and total: "sum_list hist < 2147483648" and c: "0 \<le> c"
  shows "\<exists>hist'. clip_and_redistribute hist c = Inr hist' \<and> length hist' = 256 \<and>
     (\<forall>b\<in>set hist'. 0 \<le> b) \<and> sum_list hist' = sum_list hist"
proof -
  let ?e = "sum_list (map (\<lambda>h. max 0 (h - c)) hist)"
  from clip_and_redistribute_eq[OF assms]
  obtain hist' where hist': "clip_and_redistribute hist c = Inr hist'" "length hist' = 256"
    "\<forall>b<256. hist' ! b = min c (hist ! b) + ?e div 256
        + (if int b \<in> remainder_bins (?e mod 256) then 1 else 0)"
    by blast
  have e0: "0 \<le> ?e" by (intro sum_list_nonneg) auto
  have nn: "\<forall>b\<in>set hist'. 0 \<le> b"
  proof
    fix v assume "v \<in> set hist'"
    then obtain b where b: "b < 256" "v = hist' ! b" using hist'(2) by (auto simp: in_set_conv_nth)
    have "0 \<le> hist ! b" using nonneg b len by simp
    then have "0 \<le> min c (hist ! b)" using c by simp
    moreover have "0 \<le> ?e div 256" using e0 by simp
    ultimately show "0 \<le> v" using hist'(3) b by simp
  qed
  define n where "n = length hist"
  have n: "n = 256" "length hist' = n" using len hist'(2) by (simp_all add: n_def)
  have "sum_list hist' = (\<Sum>b<n. hist' ! b)"
    using n(2) by (simp add: sum_list_sum_nth atLeast0LessThan)
  also have "\<dots> = (\<Sum>b<n. min c (hist ! b) + ?e div 256
        + (if int b \<in> remainder_bins (?e mod 256) then 1 else 0))"
    using hist'(3) n(1) by (intro sum.cong) auto
  also have "\<dots> = (\<Sum>b<n. min c (hist ! b)) + int n * (?e div 256)
        + (\<Sum>b<n. if int b \<in> remainder_bins (?e mod 256) then 1 else 0)"
    by (simp add: sum.distrib)
  also have "\<dots> = (\<Sum>b<n. min c (hist ! b)) + 256 * (?e div 256) + ?e mod 256"
    using n(1) by (simp add: count_remainder_bins)
  also have "\<dots> = (\<Sum>b<n. min c (hist ! b)) + ?e" by simp
  also have "(\<Sum>b<n. min c (hist ! b)) = sum_list (map (min c) hist)"
    by (simp add: sum_list_sum_nth atLeast0LessThan n_def)
  finally have "sum_list hist' = sum_list hist" by (simp add: clip_split_sum)
  then show ?thesis using hist'(1,2) nn by blast
qed

subsection \<open>The histogram of a tile (lines 46-55)\<close>

lemma count_pixel_step:
  assumes inv: "hist_inv S n h" and n: "n < 2147483647"
    and y: "0 \<le> y" "y < height" and x: "0 \<le> x" "x < width"
    and size: "width * height < 2147483648" "nat (width * height) \<le> length data"
    and S: "unat (data ! nat (y * width + x)) \<in> S"
  shows "\<exists>h'. count_pixel data width y x h = Inr h' \<and> hist_inv S (n + 1) h'"
proof -
  note idx = pixel_index[OF y x size(1)]
  let ?p = "unat (data ! nat (y * width + x))"
  have p: "?p < 256" using unsigned_less[of "data ! nat (y * width + x)"] by simp
  have rd: "vget data (add32 (mul32 y width) x) = Inr (data ! nat (y * width + x))"
    using idx size(2) by (simp add: vget_def)
  have len: "length h = 256" and nn: "\<forall>b\<in>set h. 0 \<le> b" and sm: "sum_list h = n"
    and out: "\<forall>b<256. b \<notin> S \<longrightarrow> h ! b = 0"
    using inv by (simp_all add: hist_inv_def)
  have hp: "0 \<le> h ! ?p" using nn p len by simp
  have "h ! ?p \<le> n" using nth_le_sum_list[OF nn, of ?p] p len sm by simp
  then have inc: "add32 (h ! ?p) 1 = h ! ?p + 1"
    unfolding add32_def using hp n by (intro wrap32_id) linarith+
  have step: "count_pixel data width y x h = Inr (h[?p := h ! ?p + 1])"
    by (simp add: count_pixel_def rd inc)
  have "hist_inv S (n + 1) (h[?p := h ! ?p + 1])"
    unfolding hist_inv_def
  proof (intro conjI)
    show "length (h[?p := h ! ?p + 1]) = 256" using len by simp
    show "\<forall>b\<in>set (h[?p := h ! ?p + 1]). 0 \<le> b"
    proof
      fix b assume "b \<in> set (h[?p := h ! ?p + 1])"
      then have "b \<in> insert (h ! ?p + 1) (set h)" using set_update_subset_insert by fast
      then show "0 \<le> b" using nn hp by auto
    qed
    show "sum_list (h[?p := h ! ?p + 1]) = n + 1" using sum_list_bump[of ?p h] p len sm by simp
    show "\<forall>b<256. b \<notin> S \<longrightarrow> h[?p := h ! ?p + 1] ! b = 0"
    proof (intro allI impI)
      fix b assume b: "b < 256" "b \<notin> S"
      then have "?p \<noteq> b" using S by auto
      then show "h[?p := h ! ?p + 1] ! b = 0" using out b by simp
    qed
  qed
  then show ?thesis using step by simp
qed

lemma build_hist_ok:
  assumes start: "0 \<le> startX" "0 \<le> startY" and tile: "0 < tileW" "0 < tileH"
    and fit: "startX + tileW \<le> width" "startY + tileH \<le> height"
    and size: "width * height < 2147483648" "nat (width * height) \<le> length data"
    and S: "\<And>x y. startX \<le> x \<Longrightarrow> x < startX + tileW \<Longrightarrow> startY \<le> y \<Longrightarrow> y < startY + tileH \<Longrightarrow>
               unat (data ! nat (y * width + x)) \<in> S"
  shows "\<exists>h. build_hist data width startX startY tileW tileH = Inr h \<and> hist_inv S (tileW * tileH) h"
proof -
  have wpos: "0 < width" "0 < height" using start tile fit by linarith+
  have "height \<le> width * height" using wpos by simp
  then have hb: "height < 2147483648" using size(1) by linarith
  have "width \<le> width * height" using wpos by simp
  then have wb: "width < 2147483648" using size(1) by linarith
  have ey: "add32 startY tileH = startY + tileH"
    unfolding add32_def using start tile fit hb by (intro wrap32_id) linarith+
  have ex: "add32 startX tileW = startX + tileW"
    unfolding add32_def using start tile fit wb by (intro wrap32_id) linarith+
  have area: "tileW * tileH \<le> width * height"
    using start tile fit by (intro mult_mono) auto
  let ?row = "\<lambda>y. for_range startX (startX + tileW) (count_pixel data width y)"
  have "\<exists>h. for_range startY (startY + tileH) ?row (replicate 256 0) = Inr h \<and>
          hist_inv S ((startY + tileH - startY) * tileW) h"
  proof (rule for_range_rule[where I = "\<lambda>y h. hist_inv S ((y - startY) * tileW) h"])
    show "startY \<le> startY + tileH" using tile by simp
    show "hist_inv S ((startY - startY) * tileW) (replicate 256 0)"
      by (simp add: hist_inv_def sum_list_replicate)
  next
    fix y h assume y: "startY \<le> y" "y < startY + tileH" and inv: "hist_inv S ((y - startY) * tileW) h"
    have "\<exists>h'. ?row y h = Inr h' \<and> hist_inv S ((y - startY) * tileW + (startX + tileW - startX)) h'"
    proof (rule for_range_rule[where I = "\<lambda>x h. hist_inv S ((y - startY) * tileW + (x - startX)) h"])
      show "startX \<le> startX + tileW" using tile by simp
      show "hist_inv S ((y - startY) * tileW + (startX - startX)) h" using inv by simp
    next
      fix x g assume x: "startX \<le> x" "x < startX + tileW"
        and g: "hist_inv S ((y - startY) * tileW + (x - startX)) g"
      have "(y - startY) * tileW \<le> (tileH - 1) * tileW"
        using y tile by (intro mult_right_mono) auto
      then have "(y - startY) * tileW + (x - startX) < tileW * tileH"
        using x by (simp add: algebra_simps)
      then have n: "(y - startY) * tileW + (x - startX) < 2147483647" using area size(1) by linarith
      have "\<exists>h'. count_pixel data width y x g = Inr h' \<and>
              hist_inv S ((y - startY) * tileW + (x - startX) + 1) h'"
        by (rule count_pixel_step[OF g n _ _ _ _ size S[OF x y]]) (use x y start fit in linarith)+
      then show "\<exists>t'. count_pixel data width y x g = Inr t' \<and>
              hist_inv S ((y - startY) * tileW + (x + 1 - startX)) t'"
        by (simp add: algebra_simps)
    qed
    then show "\<exists>t'. ?row y h = Inr t' \<and> hist_inv S ((y + 1 - startY) * tileW) t'"
      by (simp add: algebra_simps)
  qed
  then show ?thesis by (simp add: build_hist_def ey ex mult.commute)
qed

lemma hist_inv_single:
  assumes "hist_inv {p} n h" "p < 256"
  shows "h = (replicate 256 0)[p := n]"
proof -
  have len: "length h = 256" and sm: "sum_list h = n"
    and out: "\<forall>b<256. b \<noteq> p \<longrightarrow> h ! b = 0"
    using assms(1) by (simp_all add: hist_inv_def)
  define m where "m = length h"
  have m: "m = 256" using len by (simp add: m_def)
  have "sum_list h = (\<Sum>j<m. h ! j)" by (simp add: sum_list_sum_nth atLeast0LessThan m_def)
  also have "\<dots> = (\<Sum>j<m. if j = p then h ! p else 0)"
    using out m by (intro sum.cong) auto
  also have "\<dots> = h ! p" using assms(2) m by simp
  finally have hp: "h ! p = n" using sm by simp
  show ?thesis
  proof (rule nth_equalityI)
    show "length h = length ((replicate 256 (0::int))[p := n])" using len by simp
  next
    fix i assume "i < length h"
    then have i: "i < 256" using len by simp
    show "h ! i = (replicate 256 0)[p := n] ! i"
    proof (cases "i = p")
      case True
      then show ?thesis using hp i by simp
    next
      case False
      then show ?thesis using out i by simp
    qed
  qed
qed

lemma build_hist_uniform:
  assumes start: "0 \<le> startX" "0 \<le> startY" and tile: "0 < tileW" "0 < tileH"
    and fit: "startX + tileW \<le> width" "startY + tileH \<le> height"
    and size: "width * height < 2147483648" "nat (width * height) \<le> length data"
    and v: "\<And>x y. startX \<le> x \<Longrightarrow> x < startX + tileW \<Longrightarrow> startY \<le> y \<Longrightarrow> y < startY + tileH \<Longrightarrow>
               data ! nat (y * width + x) = v"
  shows "build_hist data width startX startY tileW tileH
           = Inr ((replicate 256 0)[unat v := tileW * tileH])"
proof -
  have "\<exists>h. build_hist data width startX startY tileW tileH = Inr h \<and>
          hist_inv {unat v} (tileW * tileH) h"
    by (rule build_hist_ok[OF start tile fit size]) (simp add: v)
  moreover have "unat v < 256" using unsigned_less[of v] by simp
  ultimately show ?thesis using hist_inv_single by blast
qed

subsection \<open>The table of a tile (lines 75-82)\<close>

text \<open>Entry \<open>i\<close> comes from the sum of the bins \<open>0..i\<close>. As long as \<open>cumSum * 255\<close> is an
  \<open>int\<close>, the entry is the exact quotient clamped to 255 and the table is monotone; for a tile
  of at most 8421504 pixels every running sum is that small.\<close>

lemma cdf_loop_length [simp]: "length (cdf_loop hs n c) = length hs"
  by (induction hs arbitrary: c) simp_all

lemma build_cdf_length: "length hist = 256 \<Longrightarrow> length (build_cdf hist n) = 256"
  by (simp add: build_cdf_def)

lemma cdf_loop_nth:
  assumes "\<forall>b\<in>set hs. 0 \<le> b" "0 \<le> c" "c + sum_list hs < 2147483648" "i < length hs"
  shows "cdf_loop hs n c ! i = cdf_entry (c + sum_list (take (Suc i) hs)) n"
  using assms
proof (induction hs arbitrary: c i)
  case Nil
  then show ?case by simp
next
  case (Cons h hs)
  have h0: "0 \<le> h" using Cons.prems(1) by simp
  have s0: "0 \<le> sum_list hs" using Cons.prems(1) by (intro sum_list_nonneg) simp
  have a: "add32 c h = c + h"
    unfolding add32_def using Cons.prems h0 s0 by (intro wrap32_id) (simp_all; linarith)+
  show ?case
  proof (cases i)
    case 0
    then show ?thesis by (simp add: a)
  next
    case (Suc j)
    have "cdf_loop hs n (c + h) ! j = cdf_entry (c + h + sum_list (take (Suc j) hs)) n"
      using Cons.prems Suc h0 by (intro Cons.IH) (simp_all add: add.assoc)
    then show ?thesis using Suc by (simp add: a add.assoc)
  qed
qed

lemma build_cdf_nth:
  assumes "length hist = 256" "\<forall>b\<in>set hist. 0 \<le> b" "sum_list hist < 2147483648" "i < 256"
  shows "build_cdf hist n ! i = cdf_entry (sum_list (take (Suc i) hist)) n"
  using cdf_loop_nth[of hist 0 i n] assms by (simp add: build_cdf_def)

lemma cdf_entry_exact:
  assumes "0 \<le> cumSum" "0 < n" "cumSum * 255 < 2147483648"
  shows "uint (cdf_entry cumSum n) = min 255 (cumSum * 255 div n)"
proof -
  have m: "mul32 cumSum 255 = cumSum * 255" using assms by (intro mul32_small) simp_all
  have d: "cumSum * 255 sdiv n = cumSum * 255 div n"
    using assms by (simp add: signed_divide_int_def sgn_if)
  have "0 \<le> cumSum * 255 div n" using assms by (simp add: pos_imp_zdiv_nonneg_iff)
  then have r: "0 \<le> min 255 (cumSum * 255 div n)" "min 255 (cumSum * 255 div n) < 256" by simp_all
  have "uint (word_of_int (min 255 (cumSum * 255 div n)) :: u8) = min 255 (cumSum * 255 div n)"
    using r by (simp add: uint_word_of_int)
  then show ?thesis by (simp add: cdf_entry_def m d)
qed

lemma sum_take_mono:
  fixes hs :: "int list"
  assumes "\<forall>b\<in>set hs. 0 \<le> b" "i \<le> j"
  shows "sum_list (take i hs) \<le> sum_list (take j hs)"
proof -
  have "take j hs = take i hs @ take (j - i) (drop i hs)"
    using assms(2) by (metis le_add_diff_inverse take_add)
  moreover have "0 \<le> sum_list (take (j - i) (drop i hs))"
    using assms(1) by (intro sum_list_nonneg) (meson in_set_dropD in_set_takeD)
  ultimately show ?thesis by simp
qed

lemma build_cdf_sorted:
  assumes len: "length hist = 256" and nn: "\<forall>b\<in>set hist. 0 \<le> b"
    and small: "sum_list hist * 255 < 2147483648" and n: "0 < n"
  shows "sorted (map uint (build_cdf hist n))"
proof -
  have s0: "0 \<le> sum_list hist" using nn by (intro sum_list_nonneg) simp
  then have lt: "sum_list hist < 2147483648" using small by linarith
  have part: "0 \<le> sum_list (take k hist) \<and> sum_list (take k hist) \<le> sum_list hist" for k
  proof
    show "0 \<le> sum_list (take k hist)"
      using nn by (intro sum_list_nonneg) (meson in_set_takeD)
    show "sum_list (take k hist) \<le> sum_list hist"
      using sum_take_mono[OF nn, of k "max k (length hist)"] by simp
  qed
  have entry: "uint (build_cdf hist n ! i) = min 255 (sum_list (take (Suc i) hist) * 255 div n)"
    if "i < 256" for i
  proof -
    have "sum_list (take (Suc i) hist) * 255 \<le> sum_list hist * 255"
      using part[of "Suc i"] by simp
    then have "sum_list (take (Suc i) hist) * 255 < 2147483648" using small by linarith
    then show ?thesis
      using part[of "Suc i"] n by (simp add: build_cdf_nth[OF len nn lt that] cdf_entry_exact)
  qed
  show ?thesis
    unfolding sorted_iff_nth_mono
  proof (intro allI impI)
    fix i j assume ij: "i \<le> j" "j < length (map uint (build_cdf hist n))"
    then have j: "j < 256" and i: "i < 256" using len by (simp_all add: build_cdf_length)
    have "sum_list (take (Suc i) hist) \<le> sum_list (take (Suc j) hist)"
      using sum_take_mono[OF nn, of "Suc i" "Suc j"] ij by simp
    then have "sum_list (take (Suc i) hist) * 255 div n \<le> sum_list (take (Suc j) hist) * 255 div n"
      using n by (intro zdiv_mono1) simp_all
    then have "uint (build_cdf hist n ! i) \<le> uint (build_cdf hist n ! j)"
      by (simp add: entry[OF i] entry[OF j] min_le_iff_disj)
    then show "map uint (build_cdf hist n) ! i \<le> map uint (build_cdf hist n) ! j"
      using i j len by (simp add: build_cdf_length)
  qed
qed

lemma store_cdf_ok:
  assumes "0 \<le> base" "nat base + length vs \<le> length cdfs"
  shows "store_cdf base vs cdfs = Inr (take (nat base) cdfs @ vs @ drop (nat base + length vs) cdfs)"
  using assms
proof (induction vs arbitrary: base cdfs)
  case Nil
  then show ?case by simp
next
  case (Cons v vs)
  have b: "nat base < length cdfs" using Cons.prems by simp
  have set: "vset cdfs base v = Inr (cdfs[nat base := v])"
    using Cons.prems b by (simp add: vset_def)
  have nb: "nat (base + 1) = Suc (nat base)" using Cons.prems(1) by simp
  have "store_cdf (base + 1) vs (cdfs[nat base := v]) =
      Inr (take (nat (base + 1)) (cdfs[nat base := v]) @ vs @
           drop (nat (base + 1) + length vs) (cdfs[nat base := v]))"
    using Cons.prems by (intro Cons.IH) (simp_all add: nb)
  also have "take (nat (base + 1)) (cdfs[nat base := v]) = take (nat base) cdfs @ [v]"
    using b by (simp add: nb take_Suc_conv_app_nth)
  also have "drop (nat (base + 1) + length vs) (cdfs[nat base := v]) =
      drop (nat base + length (v # vs)) cdfs"
    by (simp add: nb)
  finally show ?case by (simp add: set)
qed

subsection \<open>Step 1 (lines 39-84)\<close>

text \<open>For a well-sized input step 1 returns, and \<open>cdfs\<close> holds the table of every tile at its
  place. The tables depend only on the pixels of the columns below \<open>tilesX * tileW\<close> and the
  rows below \<open>tilesY * tileH\<close>: no histogram counts another pixel.\<close>

lemma process_tile_ok:
  assumes ws: "well_sized data width height tilesX tilesY"
    and t: "0 \<le> ty" "ty < tilesY" "0 \<le> tx" "tx < tilesX"
    and c: "0 \<le> clipCount"
    and len: "length cdfs = nat (tilesX * tilesY * 256)"
  shows "length (tile_table data width (width div tilesX) (height div tilesY) clipCount ty tx) = 256 \<and>
         process_tile data width tilesX (width div tilesX) (height div tilesY)
             (mul32 (width div tilesX) (height div tilesY)) clipCount ty tx cdfs
           = Inr (take (nat ((ty * tilesX + tx) * 256)) cdfs
                  @ tile_table data width (width div tilesX) (height div tilesY) clipCount ty tx
                  @ drop (nat ((ty * tilesX + tx) * 256) + 256) cdfs)"
proof -
  let ?tw = "width div tilesX" and ?th = "height div tilesY"
  have pos: "0 < width" "0 < height" "0 < tilesX" "0 < tilesY" "0 < ?tw" "0 < ?th"
    and size: "width * height < 2147483648" "tilesX * tilesY * 256 < 2147483648"
    and dlen: "length data = nat (width * height)"
    using ws by (simp_all add: well_sized_def)
  note fx = tile_fits[OF pos(1) pos(3) t(3,4)]
  note fy = tile_fits[OF pos(2) pos(4) t(1,2)]
  have wle: "width \<le> width * height" "height \<le> width * height" using pos by simp_all
  have sx: "mul32 tx ?tw = tx * ?tw" using fx pos wle size by (intro mul32_small) linarith+
  have sy: "mul32 ty ?th = ty * ?th" using fy pos wle size by (intro mul32_small) linarith+
  have "?tw * ?th \<le> width * height"
    using pos by (intro mult_mono) (simp_all add: int_div_le_self)
  then have n: "mul32 ?tw ?th = ?tw * ?th" "0 < ?tw * ?th" "?tw * ?th < 2147483648"
    using pos size by (simp_all add: mul32_small)
  obtain h where h: "build_hist data width (tx * ?tw) (ty * ?th) ?tw ?th = Inr h"
    "hist_inv UNIV (?tw * ?th) h"
    using build_hist_ok[OF fx(1) fy(1) pos(5,6) fx(2) fy(2) size(1), of data UNIV] dlen by auto
  then have hl: "length h = 256" "\<forall>b\<in>set h. 0 \<le> b" "sum_list h < 2147483648"
    using n by (simp_all add: hist_inv_def)
  obtain h' where h': "clip_and_redistribute h clipCount = Inr h'" "length h' = 256"
    using clip_and_redistribute_total[OF hl c] by blast
  have tbl: "tile_table data width ?tw ?th clipCount ty tx = build_cdf h' (?tw * ?th)"
    by (simp add: tile_table_def sx sy n h h')
  have tl: "length (build_cdf h' (?tw * ?th)) = 256" using h'(2) by (rule build_cdf_length)
  note num = tile_number[OF t]
  have base: "mul32 (add32 (mul32 ty tilesX) tx) 256 = (ty * tilesX + tx) * 256"
    by (rule tile_base[OF t size(2)])
  have "nat ((ty * tilesX + tx) * 256) + 256 = nat ((ty * tilesX + tx + 1) * 256)"
    using num by (simp add: nat_add_distrib algebra_simps)
  also have "\<dots> \<le> nat (tilesX * tilesY * 256)" using num by (intro nat_mono) simp
  finally have room: "nat ((ty * tilesX + tx) * 256) + length (build_cdf h' (?tw * ?th)) \<le> length cdfs"
    using len tl by simp
  have "store_cdf ((ty * tilesX + tx) * 256) (build_cdf h' (?tw * ?th)) cdfs =
      Inr (take (nat ((ty * tilesX + tx) * 256)) cdfs @ build_cdf h' (?tw * ?th)
           @ drop (nat ((ty * tilesX + tx) * 256) + length (build_cdf h' (?tw * ?th))) cdfs)"
    using num by (intro store_cdf_ok room) simp
  then show ?thesis
    using pos(5,6) by (simp add: process_tile_def Let_def sx sy n(1) h h' base tbl tl)
qed

lemma filled_0: "filled table 0 cdfs"
  unfolding filled_def by (intro allI impI) linarith

lemma filled_step:
  assumes f: "filled table n cdfs" and tl: "length (table n) = 256" and n: "0 \<le> n"
    and room: "nat (n * 256) + 256 \<le> length cdfs"
  shows "filled table (n + 1) (take (nat (n * 256)) cdfs @ table n @ drop (nat (n * 256) + 256) cdfs)"
  unfolding filled_def
proof (intro allI impI)
  fix t i :: int
  assume ti: "0 \<le> t \<and> t < n + 1 \<and> 0 \<le> i \<and> i < 256"
  let ?b = "nat (n * 256)"
  have lt: "length (take ?b cdfs) = ?b" using room by simp
  show "(take ?b cdfs @ table n @ drop (?b + 256) cdfs) ! nat (t * 256 + i) = table t ! nat i"
  proof (cases "t < n")
    case True
    then have "t * 256 + i < n * 256" using ti by linarith
    then have "nat (t * 256 + i) < ?b" using ti by (simp add: nat_less_iff)
    then have "(take ?b cdfs @ table n @ drop (?b + 256) cdfs) ! nat (t * 256 + i)
        = cdfs ! nat (t * 256 + i)"
      using lt by (simp add: nth_append)
    then show ?thesis using f True ti by (simp add: filled_def)
  next
    case False
    then have t: "t = n" using ti by linarith
    have "nat (n * 256 + i) = ?b + nat i" using n ti by (simp add: nat_add_distrib)
    then have "(take ?b cdfs @ table n @ drop (?b + 256) cdfs) ! nat (n * 256 + i)
        = (table n @ drop (?b + 256) cdfs) ! nat i"
      using lt by (simp add: nth_append)
    also have "\<dots> = table n ! nat i"
    proof -
      have "nat i < length (table n)" using tl ti by linarith
      then show ?thesis by (simp add: nth_append)
    qed
    finally show ?thesis using t by simp
  qed
qed

lemma build_cdfs_ok:
  assumes ws: "well_sized data width height tilesX tilesY" and c: "0 \<le> clipCount"
    and len: "length cdfs0 = nat (tilesX * tilesY * 256)"
  shows "\<exists>cdfs. build_cdfs data width tilesX tilesY (width div tilesX) (height div tilesY)
                   (mul32 (width div tilesX) (height div tilesY)) clipCount cdfs0 = Inr cdfs \<and>
           length cdfs = nat (tilesX * tilesY * 256) \<and>
           filled (\<lambda>t. tile_table data width (width div tilesX) (height div tilesY) clipCount
                          (t div tilesX) (t mod tilesX))
             (tilesX * tilesY) cdfs"
proof -
  let ?tw = "width div tilesX" and ?th = "height div tilesY"
  define L where "L = nat (tilesX * tilesY * 256)"
  define table where
    "table = (\<lambda>t. tile_table data width ?tw ?th clipCount (t div tilesX) (t mod tilesX))"
  define tile where "tile = process_tile data width tilesX ?tw ?th (mul32 ?tw ?th) clipCount"
  have pos: "0 < tilesX" "0 < tilesY" using ws by (simp_all add: well_sized_def)
  have "\<exists>cdfs. for_range 0 tilesY (\<lambda>ty. for_range 0 tilesX (tile ty)) cdfs0 = Inr cdfs \<and>
          (length cdfs = L \<and> filled table (tilesY * tilesX) cdfs)"
  proof (rule for_range_rule[where I = "\<lambda>ty cdfs. length cdfs = L \<and> filled table (ty * tilesX) cdfs"])
    show "0 \<le> tilesY" using pos by simp
    show "length cdfs0 = L \<and> filled table (0 * tilesX) cdfs0"
      using len filled_0[of table] by (simp add: L_def)
  next
    fix ty cdfs assume ty: "0 \<le> ty" "ty < tilesY"
      and inv: "length cdfs = L \<and> filled table (ty * tilesX) cdfs"
    have "\<exists>cdfs'. for_range 0 tilesX (tile ty) cdfs = Inr cdfs' \<and>
            (length cdfs' = L \<and> filled table (ty * tilesX + tilesX) cdfs')"
    proof (rule for_range_rule[where I = "\<lambda>tx cdfs. length cdfs = L \<and> filled table (ty * tilesX + tx) cdfs"])
      show "0 \<le> tilesX" using pos by simp
      show "length cdfs = L \<and> filled table (ty * tilesX + 0) cdfs" using inv by simp
    next
      fix tx g assume tx: "0 \<le> tx" "tx < tilesX"
        and g: "length g = L \<and> filled table (ty * tilesX + tx) g"
      define n where "n = ty * tilesX + tx"
      note num = tile_number[OF ty tx, folded n_def]
      have tt: "table n = tile_table data width ?tw ?th clipCount ty tx"
        unfolding table_def n_def using tile_div_mod[OF tx, of ty] by simp
      have gl: "length g = nat (tilesX * tilesY * 256)" using g by (simp add: L_def)
      from process_tile_ok[OF ws ty tx c gl, folded n_def tt tile_def]
      have tl: "length (table n) = 256"
        and run: "tile ty tx g = Inr (take (nat (n * 256)) g @ table n @ drop (nat (n * 256) + 256) g)"
        by blast+
      have "nat (n * 256) + 256 = nat ((n + 1) * 256)"
        using num by (simp add: nat_add_distrib algebra_simps)
      also have "\<dots> \<le> L" unfolding L_def using num by (intro nat_mono) simp
      finally have room: "nat (n * 256) + 256 \<le> length g" using g by simp
      have f: "filled table n g" using g by (simp add: n_def)
      have fl: "filled table (n + 1) (take (nat (n * 256)) g @ table n @ drop (nat (n * 256) + 256) g)"
        by (rule filled_step[OF f tl num(1) room])
      have ln: "length (take (nat (n * 256)) g @ table n @ drop (nat (n * 256) + 256) g) = L"
        using room tl g by simp
      have e: "ty * tilesX + (tx + 1) = n + 1" by (simp add: n_def)
      show "\<exists>t'. tile ty tx g = Inr t' \<and>
          (length t' = L \<and> filled table (ty * tilesX + (tx + 1)) t')"
        unfolding e run using fl ln by blast
    qed
    moreover have "(ty + 1) * tilesX = ty * tilesX + tilesX" by (simp add: algebra_simps)
    ultimately show "\<exists>t'. for_range 0 tilesX (tile ty) cdfs = Inr t' \<and>
        (length t' = L \<and> filled table ((ty + 1) * tilesX) t')"
      by metis
  qed
  then show ?thesis
    unfolding build_cdfs_def tile_def table_def L_def by (simp add: mult.commute)
qed

lemma clip_count_pos: "clip_count clipLimit n = Inr c \<Longrightarrow> 1 \<le> c"
  by (auto simp: clip_count_def split: sum.splits)

lemma well_sized_facts:
  assumes "well_sized data width height tilesX tilesY"
  shows "width sdiv tilesX = width div tilesX" "height sdiv tilesY = height div tilesY"
    "mul32 tilesX tilesY = tilesX * tilesY" "mul32 (tilesX * tilesY) 256 = tilesX * tilesY * 256"
    "mul32 width height = width * height"
    "mul32 (width div tilesX) (height div tilesY) = width div tilesX * (height div tilesY)"
    "0 \<le> tilesX * tilesY * 256" "0 \<le> width * height"
proof -
  have pos: "0 < width" "0 < height" "0 < tilesX" "0 < tilesY" "0 < width div tilesX" "0 < height div tilesY"
    and size: "width * height < 2147483648" "tilesX * tilesY * 256 < 2147483648"
    using assms by (simp_all add: well_sized_def)
  show "width sdiv tilesX = width div tilesX" "height sdiv tilesY = height div tilesY"
    using pos by (simp_all add: sdiv_pos)
  have t0: "0 < tilesX * tilesY" using pos by simp
  then show "mul32 tilesX tilesY = tilesX * tilesY" using size by (intro mul32_small) linarith+
  show "mul32 (tilesX * tilesY) 256 = tilesX * tilesY * 256" using t0 size by (intro mul32_small) linarith+
  have w0: "0 < width * height" using pos by simp
  then show "mul32 width height = width * height" using size by (intro mul32_small) linarith+
  have "width div tilesX * (height div tilesY) \<le> width * height"
    using pos by (intro mult_mono) (simp_all add: int_div_le_self)
  moreover have "0 < width div tilesX * (height div tilesY)" using pos by simp
  ultimately show "mul32 (width div tilesX) (height div tilesY) = width div tilesX * (height div tilesY)"
    using size by (intro mul32_small) linarith+
  show "0 \<le> tilesX * tilesY * 256" "0 \<le> width * height" using t0 w0 by simp_all
qed

lemma tile_size_int:
  assumes ws: "well_sized data width height tilesX tilesY"
  shows "width div tilesX < 2147483648" "height div tilesY < 2147483648"
    "width < 2147483648" "height < 2147483648"
proof -
  have pos: "0 < width" "0 < height" "0 < tilesX" "0 < tilesY"
    and size: "width * height < 2147483648"
    using ws by (simp_all add: well_sized_def)
  have "width * 1 \<le> width * height" using pos by (intro mult_left_mono) simp_all
  moreover have "1 * height \<le> width * height" using pos by (intro mult_right_mono) simp_all
  ultimately have "width \<le> width * height" "height \<le> width * height" by simp_all
  then show wb: "width < 2147483648" "height < 2147483648" using size by simp_all
  have "width div tilesX \<le> width" "height div tilesY \<le> height"
    using pos by (simp_all add: int_div_le_self)
  then show "width div tilesX < 2147483648" "height div tilesY < 2147483648" using wb by simp_all
qed

lemma step1_ok:
  assumes ws: "well_sized data width height tilesX tilesY"
    and cc: "clip_count clipLimit (width div tilesX * (height div tilesY)) = Inr clipCount"
  shows "build_cdfs data width tilesX tilesY (width div tilesX) (height div tilesY)
             (mul32 (width div tilesX) (height div tilesY)) clipCount
             (replicate (nat (tilesX * tilesY * 256)) 0)
           = Inr (step1_tables data width height tilesX tilesY clipLimit)"
    and "length (step1_tables data width height tilesX tilesY clipLimit) = nat (tilesX * tilesY * 256)"
    and "filled (\<lambda>t. tile_table data width (width div tilesX) (height div tilesY) clipCount
                        (t div tilesX) (t mod tilesX))
           (tilesX * tilesY) (step1_tables data width height tilesX tilesY clipLimit)"
proof -
  note f = well_sized_facts[OF ws]
  have c: "0 \<le> clipCount" using clip_count_pos[OF cc] by linarith
  from build_cdfs_ok[OF ws c, of "replicate (nat (tilesX * tilesY * 256)) 0"]
  obtain cdfs where cdfs: "build_cdfs data width tilesX tilesY (width div tilesX) (height div tilesY)
             (mul32 (width div tilesX) (height div tilesY)) clipCount
             (replicate (nat (tilesX * tilesY * 256)) 0) = Inr cdfs"
    "length cdfs = nat (tilesX * tilesY * 256)"
    "filled (\<lambda>t. tile_table data width (width div tilesX) (height div tilesY) clipCount
                        (t div tilesX) (t mod tilesX))
           (tilesX * tilesY) cdfs"
    by auto
  have cc': "clip_count clipLimit (mul32 (width div tilesX) (height div tilesY)) = Inr clipCount"
    using cc by (simp add: f(6))
  have "valloc (tilesX * tilesY * 256) = Inr (replicate (nat (tilesX * tilesY * 256)) 0)"
    using f(7) by (simp add: valloc_def)
  then have "step1_tables data width height tilesX tilesY clipLimit = cdfs"
    unfolding step1_tables_def Let_def f(1-4) cc' using cdfs(1) by simp
  then show "build_cdfs data width tilesX tilesY (width div tilesX) (height div tilesY)
             (mul32 (width div tilesX) (height div tilesY)) clipCount
             (replicate (nat (tilesX * tilesY * 256)) 0)
           = Inr (step1_tables data width height tilesX tilesY clipLimit)"
    and "length (step1_tables data width height tilesX tilesY clipLimit) = nat (tilesX * tilesY * 256)"
    and "filled (\<lambda>t. tile_table data width (width div tilesX) (height div tilesY) clipCount
                        (t div tilesX) (t mod tilesX))
           (tilesX * tilesY) (step1_tables data width height tilesX tilesY clipLimit)"
    using cdfs by simp_all
qed

lemma tile_table_cong:
  assumes ws: "well_sized data width height tilesX tilesY"
    and ws': "well_sized data' width height tilesX tilesY"
    and t: "0 \<le> ty" "ty < tilesY" "0 \<le> tx" "tx < tilesX"
    and same: "\<And>x y. 0 \<le> x \<Longrightarrow> x < tilesX * (width div tilesX) \<Longrightarrow>
                 0 \<le> y \<Longrightarrow> y < tilesY * (height div tilesY) \<Longrightarrow>
                 data ! nat (y * width + x) = data' ! nat (y * width + x)"
  shows "tile_table data width (width div tilesX) (height div tilesY) clipCount ty tx
       = tile_table data' width (width div tilesX) (height div tilesY) clipCount ty tx"
proof -
  let ?tw = "width div tilesX" and ?th = "height div tilesY"
  have pos: "0 < width" "0 < height" "0 < tilesX" "0 < tilesY" "0 < ?tw" "0 < ?th"
    and size: "width * height < 2147483648"
    and dlen: "length data = nat (width * height)" "length data' = nat (width * height)"
    using ws ws' by (simp_all add: well_sized_def)
  note fx = tile_fits[OF pos(1) pos(3) t(3,4)]
  note fy = tile_fits[OF pos(2) pos(4) t(1,2)]
  have wle: "width \<le> width * height" "height \<le> width * height" using pos by simp_all
  have sx: "mul32 tx ?tw = tx * ?tw" using fx pos wle size by (intro mul32_small) linarith+
  have sy: "mul32 ty ?th = ty * ?th" using fy pos wle size by (intro mul32_small) linarith+
  have ex: "add32 (tx * ?tw) ?tw = tx * ?tw + ?tw"
    using fx pos wle size by (intro add32_small) linarith+
  have ey: "add32 (ty * ?th) ?th = ty * ?th + ?th"
    using fy pos wle size by (intro add32_small) linarith+
  have "(tx + 1) * ?tw \<le> tilesX * ?tw" using t pos by (intro mult_right_mono) simp_all
  then have cx: "tx * ?tw + ?tw \<le> tilesX * ?tw" by (simp add: algebra_simps)
  have "(ty + 1) * ?th \<le> tilesY * ?th" using t pos by (intro mult_right_mono) simp_all
  then have cy: "ty * ?th + ?th \<le> tilesY * ?th" by (simp add: algebra_simps)
  have px: "count_pixel data width y x h = count_pixel data' width y x h"
    if "tx * ?tw \<le> x" "x < tx * ?tw + ?tw" "ty * ?th \<le> y" "y < ty * ?th + ?th" for x y h
  proof -
    have r: "0 \<le> y" "y < height" "0 \<le> x" "x < width" using that fx fy by linarith+
    have "data ! nat (y * width + x) = data' ! nat (y * width + x)"
      using that fx fy cx cy by (intro same) linarith+
    then show ?thesis
      by (simp add: count_pixel_def pixel_index(1)[OF r size] vget_def dlen)
  qed
  have "build_hist data width (tx * ?tw) (ty * ?th) ?tw ?th
      = build_hist data' width (tx * ?tw) (ty * ?th) ?tw ?th"
    unfolding build_hist_def ex ey
    by (intro for_range_cong) (simp add: px)
  then show ?thesis by (simp add: tile_table_def sx sy)
qed

lemma step1_tables_cong:
  assumes ws: "well_sized data width height tilesX tilesY"
    and ws': "well_sized data' width height tilesX tilesY"
    and same: "\<And>x y. 0 \<le> x \<Longrightarrow> x < tilesX * (width div tilesX) \<Longrightarrow>
                 0 \<le> y \<Longrightarrow> y < tilesY * (height div tilesY) \<Longrightarrow>
                 data ! nat (y * width + x) = data' ! nat (y * width + x)"
  shows "step1_tables data width height tilesX tilesY clipLimit
       = step1_tables data' width height tilesX tilesY clipLimit"
proof (cases "clip_count clipLimit (width div tilesX * (height div tilesY))")
  case (Inl e)
  note f = well_sized_facts[OF ws]
  show ?thesis unfolding step1_tables_def Let_def f(1,2,6) by (simp add: Inl)
next
  case cc: (Inr clipCount)
  show ?thesis
proof (rule nth_equalityI)
  show "length (step1_tables data width height tilesX tilesY clipLimit)
      = length (step1_tables data' width height tilesX tilesY clipLimit)"
    by (simp add: step1_ok(2)[OF ws cc] step1_ok(2)[OF ws' cc])
next
  fix j assume "j < length (step1_tables data width height tilesX tilesY clipLimit)"
  then have j: "int j < tilesX * tilesY * 256" by (simp add: step1_ok(2)[OF ws cc])
  have pos: "0 < tilesX" "0 < tilesY" using ws by (simp_all add: well_sized_def)
  define t where "t = int j div 256"
  define i where "i = int j mod 256"
  have ji: "int j = t * 256 + i" by (simp add: t_def i_def)
  have ok: "0 \<le> t \<and> t < tilesX * tilesY \<and> 0 \<le> i \<and> i < 256"
    using j by (simp add: t_def i_def pos_imp_zdiv_nonneg_iff int_div_less)
  have ty: "0 \<le> t div tilesX" "t div tilesX < tilesY"
    using ok pos by (simp_all add: pos_imp_zdiv_nonneg_iff int_div_less mult.commute)
  have tx: "0 \<le> t mod tilesX" "t mod tilesX < tilesX" using pos by simp_all
  have "step1_tables data width height tilesX tilesY clipLimit ! nat (t * 256 + i)
      = step1_tables data' width height tilesX tilesY clipLimit ! nat (t * 256 + i)"
    unfolding step1_ok(3)[OF ws cc, unfolded filled_def, rule_format, OF ok]
      step1_ok(3)[OF ws' cc, unfolded filled_def, rule_format, OF ok]
    by (simp only: tile_table_cong[OF ws ws' ty tx same])
  then show "step1_tables data width height tilesX tilesY clipLimit ! j
      = step1_tables data' width height tilesX tilesY clipLimit ! j"
    by (simp add: ji[symmetric])
qed
qed

subsection \<open>Rounding and casts\<close>

text \<open>Rounding leaves a number of at most 53 significant bits as it is.\<close>

lemma round_even_of_int [simp]: "round_even (of_int k) = k"
  by (simp add: round_even_def)

lemma bitlen_ge:
  assumes "2 ^ j \<le> x"
  shows "int j + 1 \<le> bitlen x"
proof (rule ccontr)
  assume "\<not> int j + 1 \<le> bitlen x"
  then have "bitlen x \<le> int j" by simp
  then have "x < 2 ^ j" by (simp add: bitlen_le_iff_power)
  then show False using assms by simp
qed

lemma ilog2_le:
  assumes "0 < q" "q < 2 powi (k + 1)"
  shows "ilog2 q \<le> k"
proof (cases "1 \<le> q")
  case True
  then have "(1::rat) < 2 powi (k + 1)" using assms by simp
  have k: "0 \<le> k"
  proof (rule ccontr)
    assume "\<not> 0 \<le> k"
    then obtain i where i: "k + 1 = - int i" by (metis add.inverse_inverse nat_0_le neg_0_le_iff_le zle_add1_eq_le zless_add1_eq not_le order_less_le)
    have "(2::rat) powi (k + 1) = 1 / 2 ^ i"
      unfolding i by (simp add: power_int_minus inverse_eq_divide)
    moreover have "(1::rat) / 2 ^ i \<le> 1" by simp
    ultimately have "(2::rat) powi (k + 1) \<le> 1" by (simp only:)
    then show False using \<open>(1::rat) < 2 powi (k + 1)\<close> by simp
  qed
  then have "q < 2 ^ nat (k + 1)" using assms(2) by (simp add: power_int_def)
  then have "\<lfloor>q\<rfloor> < 2 ^ nat (k + 1)" by (simp add: floor_less_iff)
  then have "bitlen \<lfloor>q\<rfloor> \<le> k + 1" using k by (simp add: bitlen_le_iff_power)
  then show ?thesis using True by (simp add: ilog2_def)
next
  case False
  show ?thesis
  proof (cases "0 \<le> k")
    case True
    then show ?thesis using False bitlen_nonneg[of "\<lceil>1 / q\<rceil> - 1"] by (simp add: ilog2_def)
  next
    case neg: False
    define j where "j = nat (- k - 1)"
    have kj: "k + 1 = - int j" using neg by (simp add: j_def)
    have "q < 1 / 2 ^ j" using assms(2) unfolding kj by (simp add: power_int_minus inverse_eq_divide)
    then have "2 ^ j < 1 / q" using assms(1) by (simp add: field_simps)
    then have "2 ^ j < \<lceil>1 / q\<rceil>" by (simp add: less_ceiling_iff)
    then have "2 ^ j \<le> \<lceil>1 / q\<rceil> - 1" by simp
    then have "int j + 1 \<le> bitlen (\<lceil>1 / q\<rceil> - 1)" by (rule bitlen_ge)
    then show ?thesis using False kj by (simp add: ilog2_def)
  qed
qed

lemma round53_scaled:
  assumes "\<bar>m\<bar> < 2 ^ 53"
  shows "round53 (of_int m / 2 ^ j) = of_int m / 2 ^ j"
proof (cases "m = 0")
  case True
  then show ?thesis by (simp add: round53_def)
next
  case False
  define q :: rat where "q = of_int m / 2 ^ j"
  have q0: "q \<noteq> 0" using False by (simp add: q_def)
  have "\<bar>q\<bar> = of_int \<bar>m\<bar> / 2 ^ j" by (simp add: q_def)
  also have "\<dots> < 2 ^ 53 / 2 ^ j"
  proof -
    have "(of_int \<bar>m\<bar> :: rat) < of_int (2 ^ 53)" using assms by (simp only: of_int_less_iff)
    then show ?thesis by (simp add: divide_strict_right_mono)
  qed
  also have "\<dots> = 2 powi (52 - int j + 1)"
    by (simp add: power_int_diff power_int_add)
  finally have "ilog2 \<bar>q\<bar> \<le> 52 - int j" using q0 by (intro ilog2_le) simp_all
  define d where "d = nat (52 - int j - ilog2 \<bar>q\<bar>)"
  have e: "ilog2 \<bar>q\<bar> - 52 = - int (j + d)"
    using \<open>ilog2 \<bar>q\<bar> \<le> 52 - int j\<close> by (simp add: d_def)
  have "(2::rat) powi (- int (j + d)) = inverse (2 powi int (j + d))"
    by (rule power_int_minus)
  then have p: "(2::rat) powi (ilog2 \<bar>q\<bar> - 52) = 1 / 2 ^ (j + d)"
    unfolding e by (simp only: power_int_of_nat inverse_eq_divide)
  have "q / (1 / 2 ^ (j + d)) = of_int (m * 2 ^ d)"
    by (simp add: q_def power_add)
  then have "round53 q = of_int (m * 2 ^ d) * (1 / 2 ^ (j + d))"
    using q0 by (simp add: round53_def Let_def p del: of_int_mult of_int_power)
  also have "\<dots> = q" by (simp add: q_def power_add)
  finally show ?thesis by (simp add: q_def)
qed

lemma round53_of_int: "\<bar>m\<bar> < 2 ^ 53 \<Longrightarrow> round53 (of_int m) = of_int m"
  using round53_scaled[of m 0] by simp

text \<open>Rounding is monotone about the integers of at most 53 bits.\<close>

lemma round_even_bounds: "\<lfloor>q\<rfloor> \<le> round_even q" "round_even q \<le> \<lfloor>q\<rfloor> + 1"
  by (simp_all add: round_even_def Let_def)

lemma round_even_ge:
  assumes "of_int k \<le> q"
  shows "k \<le> round_even q"
proof -
  have "k \<le> \<lfloor>q\<rfloor>" using assms by (simp add: le_floor_iff)
  then show ?thesis using round_even_bounds(1)[of q] by linarith
qed

lemma round_even_le:
  assumes "q \<le> of_int k"
  shows "round_even q \<le> k"
proof (cases "q = of_int k")
  case True
  then show ?thesis by simp
next
  case False
  then have "q < of_int k" using assms by simp
  then have "\<lfloor>q\<rfloor> < k" by (simp add: floor_less_iff)
  then show ?thesis using round_even_bounds(2)[of q] by linarith
qed

lemma round53_between:
  assumes "of_int a \<le> q" "q \<le> of_int b" "\<bar>a\<bar> < 2 ^ 53" "\<bar>b\<bar> < 2 ^ 53"
  shows "of_int a \<le> round53 q" "round53 q \<le> of_int b"
proof -
  have "of_int a \<le> round53 q \<and> round53 q \<le> of_int b"
  proof (cases "q = 0")
    case True
    then show ?thesis using assms by (simp add: round53_def)
  next
    case False
    have "b < 2 ^ 53" "- a < 2 ^ 53" using assms(3,4) by linarith+
    then have "(of_int b :: rat) < of_int (2 ^ 53)" "(of_int (- a) :: rat) < of_int (2 ^ 53)"
      by (simp_all only: of_int_less_iff)
    then have hi: "q < 2 ^ 53" and lo: "- q < 2 ^ 53" using assms(1,2) by simp_all
    have "\<bar>q\<bar> < 2 powi (52 + 1)" using hi lo by (simp add: abs_less_iff)
    then have "ilog2 \<bar>q\<bar> \<le> 52" using False by (intro ilog2_le) simp_all
    define d where "d = nat (52 - ilog2 \<bar>q\<bar>)"
    have e: "ilog2 \<bar>q\<bar> - 52 = - int d" using \<open>ilog2 \<bar>q\<bar> \<le> 52\<close> by (simp add: d_def)
    have "(2::rat) powi (- int d) = inverse (2 powi int d)" by (rule power_int_minus)
    then have p: "(2::rat) powi (ilog2 \<bar>q\<bar> - 52) = 1 / 2 ^ d"
      unfolding e by (simp only: power_int_of_nat inverse_eq_divide)
    have r: "round53 q = of_int (round_even (q * 2 ^ d)) / 2 ^ d"
      using False by (simp add: round53_def Let_def p)
    have "of_int (a * 2 ^ d) \<le> q * 2 ^ d" using assms(1) by simp
    then have "a * 2 ^ d \<le> round_even (q * 2 ^ d)" by (rule round_even_ge)
    then have "(of_int (a * 2 ^ d) :: rat) \<le> of_int (round_even (q * 2 ^ d))"
      by (simp only: of_int_le_iff)
    then have l: "of_int a \<le> round53 q" unfolding r by (simp add: field_simps)
    have "q * 2 ^ d \<le> of_int (b * 2 ^ d)" using assms(2) by simp
    then have "round_even (q * 2 ^ d) \<le> b * 2 ^ d" by (rule round_even_le)
    then have "(of_int (round_even (q * 2 ^ d)) :: rat) \<le> of_int (b * 2 ^ d)"
      by (simp only: of_int_le_iff)
    then have "round53 q \<le> of_int b" unfolding r by (simp add: field_simps)
    then show ?thesis using l by simp
  qed
  then show "of_int a \<le> round53 q" "round53 q \<le> of_int b" by simp_all
qed

text \<open>At a number that needs more bits the rounding is that of binary64: \<open>1 / 3\<close> becomes
  \<open>6004799503160661 / 2\<^sup>5\<^sup>4\<close> (the \<open>double\<close> \<open>0x3FD5555555555555\<close>), and a tie goes to
  the neighbour whose last bit is 0.\<close>

lemma round53_third: "round53 (1 / 3) = 6004799503160661 / 18014398509481984"
  by code_simp

lemma round53_ties: "round53 (1 + 1 / 2 ^ 53) = 1" "round53 (1 + 3 / 2 ^ 53) = 1 + 4 / 2 ^ 53"
  by code_simp+

lemma round53_0: "round53 0 = 0"
  by (simp add: round53_def)

lemma round53_1: "round53 1 = 1"
  using round53_of_int[of 1] by simp

lemma round53_numeral: "(numeral k :: int) < 2 ^ 53 \<Longrightarrow> round53 (numeral k) = numeral k"
  using round53_of_int[of "numeral k"] by simp

lemma round53_half: "round53 (1 / 2) = 1 / 2"
  using round53_scaled[of 1 1] by simp

lemma round53_neg_half: "round53 (- (1 / 2)) = - (1 / 2)"
  using round53_scaled[of "-1" 1] by simp

lemma round53_numeral_half:
  "(numeral k :: int) < 2 ^ 53 \<Longrightarrow> round53 (numeral k / 2) = numeral k / 2"
  using round53_scaled[of "numeral k" 1] by simp

lemmas round53_values =
  round53_0 round53_1 round53_numeral round53_half round53_neg_half round53_numeral_half

lemmas double_defs =
  dadd_def dsub_def dmul_def ddiv_def i2d_def u2d_def

text \<open>The casts: a clip count at \<open>clipLimit = 2\<close>; the tile coordinate of a pixel casts to
  an \<open>int\<close>; the clamped value of line 125 casts to a byte.\<close>

lemma clip_count_2_1: "clip_count 2 1 = Inr 1"
proof -
  have r: "round53 (1 / 128) = 1 / 128" using round53_scaled[of 1 7] by simp
  show ?thesis by (simp add: clip_count_def d2i_def towards_zero_def double_defs round53_values r)
qed

lemma clip_count_2_big: "clip_count 2 8427409 = Inr 65839"
proof -
  have r: "round53 (8427409 / 128) = 8427409 / 128" using round53_scaled[of 8427409 7] by simp
  have fl: "\<lfloor>8427409 / 128 :: rat\<rfloor> = 65839"
    using floor_divide_of_int_eq[of 8427409 128, where ?'a = rat] by simp
  show ?thesis
    by (simp add: clip_count_def d2i_def towards_zero_def double_defs round53_values r fl)
qed

lemma towards_zero_between:
  assumes "of_int a \<le> q" "q \<le> of_int b" "a \<le> 0" "0 \<le> b"
  shows "a \<le> towards_zero q" "towards_zero q \<le> b"
proof -
  have "a \<le> towards_zero q \<and> towards_zero q \<le> b"
  proof (cases "0 \<le> q")
    case True
    then have "0 \<le> \<lfloor>q\<rfloor>" by simp
    moreover have "\<lfloor>q\<rfloor> \<le> b" using assms(2) by (simp add: floor_le_iff order_le_less_trans)
    moreover have "towards_zero q = \<lfloor>q\<rfloor>" using True by (simp add: towards_zero_def)
    ultimately show ?thesis using assms(3) by linarith
  next
    case False
    then have "\<lceil>q\<rceil> \<le> 0" by (simp add: ceiling_le_iff)
    moreover have "a \<le> \<lceil>q\<rceil>" using assms(1) by (simp add: le_ceiling_iff order_less_le_trans)
    moreover have "towards_zero q = \<lceil>q\<rceil>" using False by (simp add: towards_zero_def)
    ultimately show ?thesis using assms(4) by linarith
  qed
  then show "a \<le> towards_zero q" "towards_zero q \<le> b" by simp_all
qed

lemma tile_coord_range:
  assumes "0 \<le> x" "x < 2147483648" "0 < tileW" "tileW < 2147483648"
  shows "of_int (- 1) \<le> tile_coord x tileW" "tile_coord x tileW \<le> of_int x"
proof -
  have ix: "i2d x = of_int x" unfolding i2d_def using assms by (intro round53_of_int) simp
  have iw: "i2d tileW = of_int tileW" unfolding i2d_def using assms by (intro round53_of_int) simp
  define q :: rat where "q = of_int x / of_int tileW"
  have w: "(1::rat) \<le> of_int tileW" using assms(3) by simp
  have "(of_int x :: rat) / of_int tileW \<le> of_int x / 1"
    using w assms(1) by (intro divide_left_mono) simp_all
  then have q: "of_int 0 \<le> q" "q \<le> of_int x"
    using assms(1,3) by (simp_all add: q_def)
  have bx: "\<bar>x\<bar> < 2 ^ 53" "\<bar>0::int\<bar> < 2 ^ 53" "\<bar>- 1::int\<bar> < 2 ^ 53" using assms by simp_all
  note r1 = round53_between[OF q bx(2) bx(1)]
  have "of_int (- 1) \<le> round53 q - 1 / 2" "round53 q - 1 / 2 \<le> of_int x" using r1 by simp_all
  from round53_between[OF this bx(3) bx(1)]
  show "of_int (- 1) \<le> tile_coord x tileW" "tile_coord x tileW \<le> of_int x"
    by (simp_all add: tile_coord_def dsub_def ddiv_def ix iw q_def)
qed

lemma tile_coord_cast:
  assumes "0 \<le> x" "x < 2147483648" "0 < tileW" "tileW < 2147483648"
  shows "d2i (tile_coord x tileW) = Inr (towards_zero (tile_coord x tileW))"
proof -
  note r = tile_coord_range[OF assms]
  have "- 1 \<le> towards_zero (tile_coord x tileW)" "towards_zero (tile_coord x tileW) \<le> x"
    using towards_zero_between[OF r] assms(1) by simp_all
  then show ?thesis using assms(2) by (simp add: d2i_def)
qed

lemma d2u8_clamped:
  "d2u8 (max 0 (min 255 q)) = Inr (stored_byte q)"
  "uint (stored_byte q) = \<lfloor>max 0 (min 255 q)\<rfloor>"
  "0 \<le> uint (stored_byte q)" "uint (stored_byte q) \<le> 255"
proof -
  define c where "c = max 0 (min 255 q)"
  have c: "0 \<le> c" "c \<le> 255" by (simp_all add: c_def)
  then have f: "0 \<le> \<lfloor>c\<rfloor>" "\<lfloor>c\<rfloor> \<le> 255" by (simp_all add: floor_le_iff le_floor_iff)
  have t: "towards_zero c = \<lfloor>c\<rfloor>" using c by (simp add: towards_zero_def)
  show "d2u8 (max 0 (min 255 q)) = Inr (stored_byte q)"
    using f by (simp add: d2u8_def stored_byte_def t c_def[symmetric])
  have "uint (word_of_int \<lfloor>c\<rfloor> :: u8) = \<lfloor>c\<rfloor>" using f by (simp add: uint_word_of_int)
  then show "uint (stored_byte q) = \<lfloor>max 0 (min 255 q)\<rfloor>"
    by (simp add: stored_byte_def t c_def[symmetric])
  then show "0 \<le> uint (stored_byte q)" "uint (stored_byte q) \<le> 255"
    using f by (simp_all add: c_def)
qed

lemma tile_coord_0_1: "tile_coord 0 1 = - (1 / 2)"
  by (simp add: tile_coord_def double_defs round53_values)

lemma tile_coord_1_1: "tile_coord 1 1 = 1 / 2"
  by (simp add: tile_coord_def double_defs round53_values)

lemma towards_zero_halves: "towards_zero (- (1 / 2)) = 0" "towards_zero (1 / 2) = 0"
  by (simp_all add: towards_zero_def floor_eq_iff ceiling_eq_iff)

lemma clamp_tile_0_2: "clamp_tile 0 2 = 0"
  by (simp add: clamp_tile_def sub32_def wrap32_def)

lemma weight_halves: "weight (- (1 / 2)) 0 = 0" "weight (1 / 2) 0 = 1 / 2"
  by (simp_all add: weight_def double_defs round53_values)

lemma blend_255: "blend 255 255 255 255 0 0 = 255" "blend 255 255 255 255 0 (1 / 2) = 255"
  "blend 255 255 255 255 (1 / 2) 0 = 255" "blend 255 255 255 255 (1 / 2) (1 / 2) = 255"
  by (simp_all add: blend_def double_defs round53_values)

lemma stored_byte_255: "stored_byte 255 = 255"
  by (simp add: stored_byte_def towards_zero_def)

subsection \<open>Step 2 (lines 86-127)\<close>

text \<open>With at least two rows and two columns of tiles the four reads of lines 115-118 are
  inside the table; with one row of tiles a read of line 116 or 117 is outside it, whatever
  the pixel. The casts of lines 99-100 and 124 are defined (\<open>tile_coord_cast\<close>,
  \<open>d2u8_clamped\<close>).\<close>

lemma cdf_index_in_range:
  assumes t: "0 \<le> ty" "ty < tilesY" "0 \<le> tx" "tx < tilesX"
    and size: "tilesX * tilesY * 256 < 2147483648"
  shows "cdf_index tilesX ty tx pixel = (ty * tilesX + tx) * 256 + uint pixel"
    and "0 \<le> cdf_index tilesX ty tx pixel"
    and "cdf_index tilesX ty tx pixel < tilesX * tilesY * 256"
proof -
  note num = tile_number[OF t]
  note p = uint8_range[of pixel]
  have lo: "0 \<le> (ty * tilesX + tx) * 256 + uint pixel" using num p by simp
  have "(ty * tilesX + tx) * 256 + 256 \<le> tilesX * tilesY * 256" using num by simp
  then have hi: "(ty * tilesX + tx) * 256 + uint pixel < tilesX * tilesY * 256" using p by linarith
  have "add32 ((ty * tilesX + tx) * 256) (uint pixel) = (ty * tilesX + tx) * 256 + uint pixel"
    using lo hi size by (intro add32_small) linarith+
  then show eq: "cdf_index tilesX ty tx pixel = (ty * tilesX + tx) * 256 + uint pixel"
    by (simp add: cdf_index_def tile_base[OF t size])
  show "0 \<le> cdf_index tilesX ty tx pixel" using eq lo by simp
  show "cdf_index tilesX ty tx pixel < tilesX * tilesY * 256" using eq hi by simp
qed

lemma clamp_tile_range:
  assumes "2 \<le> tiles" "tiles < 2147483648"
  shows "0 \<le> clamp_tile t tiles" "clamp_tile t tiles + 1 < tiles"
    "add32 (clamp_tile t tiles) 1 = clamp_tile t tiles + 1"
proof -
  have s: "sub32 tiles 2 = tiles - 2"
    unfolding sub32_def using assms by (intro wrap32_id) linarith+
  show lo: "0 \<le> clamp_tile t tiles" by (simp add: clamp_tile_def)
  show hi: "clamp_tile t tiles + 1 < tiles" using assms by (simp add: clamp_tile_def s)
  show "add32 (clamp_tile t tiles) 1 = clamp_tile t tiles + 1"
    using lo hi assms by (intro add32_small) linarith+
qed

lemma clamp_tile_one: "clamp_tile t 1 = 0"
  by (simp add: clamp_tile_def sub32_def wrap32_def)

lemma clamp_tile_bounds:
  assumes "0 < tiles" "tiles < 2147483648"
  shows "0 \<le> clamp_tile t tiles" "clamp_tile t tiles < tiles"
proof -
  have s: "sub32 tiles 2 = tiles - 2"
    unfolding sub32_def using assms by (intro wrap32_id) linarith+
  show "0 \<le> clamp_tile t tiles" by (simp add: clamp_tile_def)
  show "clamp_tile t tiles < tiles" using assms by (simp add: clamp_tile_def s)
qed

lemma interp_pixel_ok:
  assumes tiles: "2 \<le> tilesX" "2 \<le> tilesY" and size: "tilesX * tilesY * 256 < 2147483648"
    and len: "length cdfs = nat (tilesX * tilesY * 256)"
    and x: "0 \<le> x" "x < 2147483648" "0 < tileW" "tileW < 2147483648"
    and y: "0 \<le> y" "y < 2147483648" "0 < tileH" "tileH < 2147483648"
  shows "interp_pixel cdfs tilesX tilesY tileW tileH x y pixel
           = Inr (interp_value cdfs tilesX tilesY tileW tileH x y pixel)"
proof -
  define tx0 where "tx0 = clamp_tile (towards_zero (tile_coord x tileW)) tilesX"
  define ty0 where "ty0 = clamp_tile (towards_zero (tile_coord y tileH)) tilesY"
  have "tilesX * 1 \<le> tilesX * (tilesY * 256)" using tiles by (intro mult_left_mono) auto
  then have bx: "tilesX < 2147483648" using size by (simp add: mult.assoc)
  have "tilesY * 1 \<le> tilesY * (tilesX * 256)" using tiles by (intro mult_left_mono) auto
  then have by': "tilesY < 2147483648" using size by (simp add: mult.assoc mult.left_commute)
  note cx = clamp_tile_range[OF tiles(1) bx, of "towards_zero (tile_coord x tileW)", folded tx0_def]
  note cy = clamp_tile_range[OF tiles(2) by', of "towards_zero (tile_coord y tileH)", folded ty0_def]
  have rd: "vget cdfs (cdf_index tilesX ty tx pixel) = Inr (cdfs ! nat (cdf_index tilesX ty tx pixel))"
    if "0 \<le> ty" "ty < tilesY" "0 \<le> tx" "tx < tilesX" for ty tx
  proof (rule vget_ok)
    show "0 \<le> cdf_index tilesX ty tx pixel" using cdf_index_in_range(2)[OF that size] .
    show "nat (cdf_index tilesX ty tx pixel) < length cdfs"
      using cdf_index_in_range(2,3)[OF that size, of pixel] len by simp
  qed
  have r00: "vget cdfs (cdf_index tilesX ty0 tx0 pixel) = Inr (cdfs ! nat (cdf_index tilesX ty0 tx0 pixel))"
    using cx cy by (intro rd) linarith+
  have r01: "vget cdfs (cdf_index tilesX ty0 (tx0 + 1) pixel) = Inr (cdfs ! nat (cdf_index tilesX ty0 (tx0 + 1) pixel))"
    using cx cy by (intro rd) linarith+
  have r10: "vget cdfs (cdf_index tilesX (ty0 + 1) tx0 pixel) = Inr (cdfs ! nat (cdf_index tilesX (ty0 + 1) tx0 pixel))"
    using cx cy by (intro rd) linarith+
  have r11: "vget cdfs (cdf_index tilesX (ty0 + 1) (tx0 + 1) pixel) = Inr (cdfs ! nat (cdf_index tilesX (ty0 + 1) (tx0 + 1) pixel))"
    using cx cy by (intro rd) linarith+
  show ?thesis
    unfolding interp_pixel_def interp_value_def Let_def tile_coord_cast[OF x] tile_coord_cast[OF y]
      sum.case
    unfolding tx0_def[symmetric] ty0_def[symmetric] cx(3) cy(3)
    by (simp add: r00 r01 r10 r11 d2u8_clamped(1))
qed

lemma interp_pixel_one_row:
  assumes tx: "0 < tilesX" "tilesX * 256 < 1073741824"
    and len: "length cdfs = nat (tilesX * 256)"
    and x: "0 \<le> x" "x < 2147483648" "0 < tileW" "tileW < 2147483648"
    and y: "0 \<le> y" "y < 2147483648" "0 < tileH" "tileH < 2147483648"
  shows "interp_pixel cdfs tilesX 1 tileW tileH x y pixel = Inl OutOfRange"
proof -
  define tx0 where "tx0 = clamp_tile (towards_zero (tile_coord x tileW)) tilesX"
  have b: "0 \<le> tx0" "tx0 < tilesX"
    using clamp_tile_bounds[of tilesX "towards_zero (tile_coord x tileW)"] tx
    by (simp_all add: tx0_def)
  note p = uint8_range[of pixel]
  have "mul32 1 tilesX = tilesX" using tx by (simp add: mul32_def wrap32_id)
  moreover have "add32 tilesX tx0 = tilesX + tx0" using b tx by (intro add32_small) linarith+
  moreover have "mul32 (tilesX + tx0) 256 = (tilesX + tx0) * 256"
    using b tx by (intro mul32_small) (simp_all add: algebra_simps)
  moreover have "add32 ((tilesX + tx0) * 256) (uint pixel) = (tilesX + tx0) * 256 + uint pixel"
    using b tx p by (intro add32_small) (simp_all add: algebra_simps)
  ultimately have i: "cdf_index tilesX 1 tx0 pixel = (tilesX + tx0) * 256 + uint pixel"
    by (simp add: cdf_index_def)
  have "tilesX * 256 \<le> cdf_index tilesX 1 tx0 pixel" using i b p by (simp add: algebra_simps)
  then have "\<not> nat (cdf_index tilesX 1 tx0 pixel) < length cdfs" using len by linarith
  then have v10: "vget cdfs (cdf_index tilesX 1 tx0 pixel) = Inl OutOfRange"
    by (simp add: vget_def)
  have one: "add32 0 1 = 1" by (simp add: add32_def wrap32_def)
  show ?thesis
    unfolding interp_pixel_def Let_def tile_coord_cast[OF x] tile_coord_cast[OF y] sum.case
      clamp_tile_one one tx0_def[symmetric]
    by (auto simp: v10 split: sum.splits dest: vget_error)
qed

lemma written_0: "length out = len \<Longrightarrow> written f len 0 out"
  unfolding written_def by (intro conjI allI impI) (simp, linarith)

lemma written_step:
  assumes "written f len n out" "0 \<le> n" "nat n < len"
  shows "written f len (n + 1) (out[nat n := f n])"
  unfolding written_def
proof (intro conjI allI impI)
  show "length (out[nat n := f n]) = len" using assms by (simp add: written_def)
next
  fix j assume j: "0 \<le> j \<and> j < n + 1"
  show "out[nat n := f n] ! nat j = f j"
  proof (cases "j = n")
    case True
    then show ?thesis using assms by (simp add: written_def)
  next
    case False
    then have "nat n \<noteq> nat j" "j < n" using j assms(2) by auto
    then show ?thesis using assms(1) j by (simp add: written_def)
  qed
qed

lemma interpolate_ok:
  assumes ws: "well_sized data width height tilesX tilesY"
    and tiles: "2 \<le> tilesX" "2 \<le> tilesY"
    and len: "length cdfs = nat (tilesX * tilesY * 256)"
    and olen: "length output0 = nat (width * height)"
    and tw: "0 < tileW" "tileW < 2147483648" and th: "0 < tileH" "tileH < 2147483648"
  shows "interpolate data cdfs width height tilesX tilesY tileW tileH output0 =
     Inr (map (\<lambda>j. interp_value cdfs tilesX tilesY tileW tileH (int j mod width) (int j div width)
                    (data ! j)) [0..<nat (width * height)])"
proof -
  have pos: "0 < width" "0 < height"
    and size: "width * height < 2147483648" "tilesX * tilesY * 256 < 2147483648"
    and dlen: "length data = nat (width * height)"
    using ws by (simp_all add: well_sized_def)
  note wb = tile_size_int(3,4)[OF ws]
  define f where "f = (\<lambda>j. interp_value cdfs tilesX tilesY tileW tileH (j mod width) (j div width)
                    (data ! nat j))"
  define L where "L = nat (width * height)"
  define px where "px = write_pixel data cdfs width tilesX tilesY tileW tileH"
  have "\<exists>out. for_range 0 height (\<lambda>y. for_range 0 width (px y)) output0 = Inr out \<and>
          written f L (height * width) out"
  proof (rule for_range_rule[where I = "\<lambda>y out. written f L (y * width) out"])
    show "0 \<le> height" using pos by simp
    show "written f L (0 * width) output0" using olen written_0[of output0 L f] by (simp add: L_def)
  next
    fix y out assume y: "0 \<le> y" "y < height" and inv: "written f L (y * width) out"
    have "\<exists>out'. for_range 0 width (px y) out = Inr out' \<and> written f L (y * width + width) out'"
    proof (rule for_range_rule[where I = "\<lambda>x out. written f L (y * width + x) out"])
      show "0 \<le> width" using pos by simp
      show "written f L (y * width + 0) out" using inv by simp
    next
      fix x g assume x: "0 \<le> x" "x < width" and g: "written f L (y * width + x) g"
      define n where "n = y * width + x"
      note idx = pixel_index[OF y x size(1), folded n_def]
      have nl: "nat n < L" using idx by (simp add: L_def nat_less_iff)
      have xy: "n mod width = x" "n div width = y" using x by (simp_all add: n_def)
      have rd: "vget data n = Inr (data ! nat n)" using idx nl dlen by (intro vget_ok) (simp_all add: L_def)
      have xb: "x < 2147483648" "y < 2147483648" using x y wb by linarith+
      have ip: "interp_pixel cdfs tilesX tilesY tileW tileH x y (data ! nat n) = Inr (f n)"
        unfolding f_def xy
        by (rule interp_pixel_ok[OF tiles size(2) len x(1) xb(1) tw y(1) xb(2) th])
      have gl: "length g = L" using g by (simp add: written_def)
      have wr: "vset g n (f n) = Inr (g[nat n := f n])" using idx nl gl by (intro vset_ok) simp_all
      have run: "px y x g = Inr (g[nat n := f n])"
        by (simp add: px_def write_pixel_def idx(1) rd ip wr)
      have g': "written f L n g" using g by (simp add: n_def)
      have e: "y * width + (x + 1) = n + 1" by (simp add: n_def)
      show "\<exists>t'. px y x g = Inr t' \<and> written f L (y * width + (x + 1)) t'"
        unfolding e run using written_step[OF g' idx(2) nl] by blast
    qed
    moreover have "(y + 1) * width = y * width + width" by (simp add: algebra_simps)
    ultimately show "\<exists>t'. for_range 0 width (px y) out = Inr t' \<and> written f L ((y + 1) * width) t'"
      by metis
  qed
  then obtain out where out: "interpolate data cdfs width height tilesX tilesY tileW tileH output0 = Inr out"
    "written f L (height * width) out"
    by (auto simp: interpolate_def px_def)
  have "out = map (\<lambda>j. f (int j)) [0..<L]"
  proof (rule nth_equalityI)
    show "length out = length (map (\<lambda>j. f (int j)) [0..<L])" using out(2) by (simp add: written_def)
  next
    fix i assume "i < length out"
    then have i: "i < L" using out(2) by (simp add: written_def)
    then have "int i < height * width" by (simp add: L_def mult.commute)
    moreover have "\<forall>j. 0 \<le> j \<and> j < height * width \<longrightarrow> out ! nat j = f j"
      using out(2) by (simp add: written_def)
    ultimately have "out ! nat (int i) = f (int i)" by (metis of_nat_0_le_iff)
    then show "out ! i = map (\<lambda>j. f (int j)) [0..<L] ! i" using i by simp
  qed
  then show ?thesis using out(1) by (simp add: f_def L_def)
qed

lemma write_pixel_length:
  assumes "write_pixel data cdfs width tilesX tilesY tileW tileH y x out = Inr out'"
  shows "length out' = length out"
  using assms by (auto simp: write_pixel_def vset_def split: sum.splits if_splits)

lemma interpolate_length:
  assumes "interpolate data cdfs width height tilesX tilesY tileW tileH out = Inr out'"
  shows "length out' = length out"
proof -
  have row: "length t' = length out"
    if "for_range 0 width (write_pixel data cdfs width tilesX tilesY tileW tileH y) t = Inr t'"
      "length t = length out" for y t t'
    using that(1)
    by (rule for_range_preserves[where P = "\<lambda>t. length t = length out"])
       (simp_all add: that(2) write_pixel_length)
  show ?thesis
    using assms[unfolded interpolate_def]
    by (rule for_range_preserves[where P = "\<lambda>t. length t = length out"]) (simp_all add: row)
qed

subsection \<open>The call\<close>

text \<open>For a well-sized input with at least two rows and two columns of tiles, and a clip
  limit for which the cast of line 37 is defined, the call returns, and pixel \<open>j\<close> of the
  buffer becomes the value interpolated from the tables of step 1 and the value that pixel
  \<open>j\<close> had before the call. With one row of tiles the call reads outside the table at its
  first pixel.\<close>

lemma applyCLAHE_unfold:
  assumes ws: "well_sized data width height tilesX tilesY"
    and cc: "clip_count clipLimit (width div tilesX * (height div tilesY)) = Inr clipCount"
  shows "applyCLAHE (Some data) width height tilesX tilesY clipLimit =
     (case interpolate data (step1_tables data width height tilesX tilesY clipLimit) width height
             tilesX tilesY (width div tilesX) (height div tilesY)
             (replicate (nat (width * height)) 0) of
        Inl e \<Rightarrow> Inl e
      | Inr output \<Rightarrow>
          Inr \<lparr>allocs = [nat (tilesX * tilesY * 256), nat (width * height)], buffer = Some output\<rparr>)"
proof -
  note f = well_sized_facts[OF ws]
  have pos: "0 < width" "0 < height" "0 < tilesX" "0 < tilesY" "0 < width div tilesX" "0 < height div tilesY"
    and dlen: "length data = nat (width * height)"
    using ws by (simp_all add: well_sized_def)
  have guards: "\<not> (width \<le> 0 \<or> height \<le> 0)" "\<not> (tilesX \<le> 0 \<or> tilesY \<le> 0)"
    "\<not> (width div tilesX \<le> 0 \<or> height div tilesY \<le> 0)"
    using pos by simp_all
  have a1: "valloc (tilesX * tilesY * 256) = Inr (replicate (nat (tilesX * tilesY * 256)) 0)"
    using f(7) by (simp add: valloc_def)
  have a2: "valloc (width * height) = Inr (replicate (nat (width * height)) 0)"
    using f(8) by (simp add: valloc_def)
  have out_len: "length out = nat (width * height)"
    if "interpolate data cdfs width height tilesX tilesY tw th (replicate (nat (width * height)) 0) = Inr out"
    for cdfs tw th out
    using interpolate_length[OF that] by simp
  have s1: "build_cdfs data width tilesX tilesY (width div tilesX) (height div tilesY)
             (width div tilesX * (height div tilesY)) clipCount
             (replicate (nat (tilesX * tilesY * 256)) 0)
           = Inr (step1_tables data width height tilesX tilesY clipLimit)"
    using step1_ok(1)[OF ws cc] by (simp add: f(6))
  define r where "r = interpolate data (step1_tables data width height tilesX tilesY clipLimit)
             width height tilesX tilesY (width div tilesX) (height div tilesY)
             (replicate (nat (width * height)) 0)"
  have "applyCLAHE (Some data) width height tilesX tilesY clipLimit =
     (case r of
        Inl e \<Rightarrow> Inl e
      | Inr output \<Rightarrow>
          (case memcpy data output (width * height) of
             Inl e \<Rightarrow> Inl e
           | Inr pixels' \<Rightarrow>
               Inr \<lparr>allocs = [nat (tilesX * tilesY * 256), nat (width * height)],
                    buffer = Some pixels'\<rparr>))"
    unfolding applyCLAHE_def Let_def f(1,2) r_def
    by (simp add: guards f(3-6) cc a1 a2 s1 cong: sum.case_cong)
  also have "\<dots> = (case r of
        Inl e \<Rightarrow> Inl e
      | Inr output \<Rightarrow>
          Inr \<lparr>allocs = [nat (tilesX * tilesY * 256), nat (width * height)], buffer = Some output\<rparr>)"
  proof (cases r)
    case (Inl e)
    then show ?thesis by simp
  next
    case (Inr out)
    then have "length out = nat (width * height)" using out_len by (simp add: r_def)
    then show ?thesis using Inr by (simp add: memcpy_def f(8) dlen)
  qed
  finally show ?thesis by (simp add: r_def)
qed

lemma applyCLAHE_result:
  assumes ws: "well_sized data width height tilesX tilesY" and tiles: "2 \<le> tilesX" "2 \<le> tilesY"
    and cc: "clip_count clipLimit (width div tilesX * (height div tilesY)) = Inr clipCount"
  shows "applyCLAHE (Some data) width height tilesX tilesY clipLimit =
     Inr \<lparr>allocs = [nat (tilesX * tilesY * 256), nat (width * height)],
          buffer = Some (map (\<lambda>j. interp_value (step1_tables data width height tilesX tilesY clipLimit)
                               tilesX tilesY (width div tilesX) (height div tilesY)
                               (int j mod width) (int j div width) (data ! j))
                           [0..<nat (width * height)])\<rparr>"
proof -
  have pos: "0 < width div tilesX" "0 < height div tilesY"
    using ws by (simp_all add: well_sized_def)
  note b = tile_size_int[OF ws]
  show ?thesis
    unfolding applyCLAHE_unfold[OF ws cc]
    by (simp add: interpolate_ok[OF ws tiles step1_ok(2)[OF ws cc] _ pos(1) b(1) pos(2) b(2)])
qed

lemma applyCLAHE_one_row:
  assumes ws: "well_sized data width height tilesX 1" and tx: "tilesX * 256 < 1073741824"
    and cc: "clip_count clipLimit (width div tilesX * height) = Inr clipCount"
  shows "applyCLAHE (Some data) width height tilesX 1 clipLimit = Inl OutOfRange"
proof -
  have pos: "0 < width" "0 < height" "0 < tilesX"
    and size: "width * height < 2147483648"
    and dlen: "length data = nat (width * height)"
    and tpos: "0 < width div tilesX"
    using ws by (simp_all add: well_sized_def)
  have cc': "clip_count clipLimit (width div tilesX * (height div 1)) = Inr clipCount"
    using cc by simp
  note b = tile_size_int[OF ws]
  define cdfs where "cdfs = step1_tables data width height tilesX 1 clipLimit"
  have len: "length cdfs = nat (tilesX * 256)" using step1_ok(2)[OF ws cc'] by (simp add: cdfs_def)
  define px where "px = write_pixel data cdfs width tilesX 1 (width div tilesX) (height div 1)"
  have "0 < width * height" using pos by simp
  then have rd: "vget data 0 = Inr (data ! 0)" using dlen by (simp add: vget_def)
  have z: "add32 (mul32 0 width) 0 = 0" by (simp add: add32_def mul32_def wrap32_def)
  have first: "px 0 0 out = Inl OutOfRange" for out
    by (simp add: px_def write_pixel_def z rd
        interp_pixel_one_row[OF pos(3) tx len order_refl _ tpos b(1) order_refl _ pos(2) b(4)])
  have row: "for_range 0 width (px 0) out = Inl OutOfRange" for out
    by (rule for_range_first_fails[where body = "px 0", OF pos(1) first])
  have "for_range 0 height (\<lambda>y. for_range 0 width (px y)) out = Inl OutOfRange" for out
    by (rule for_range_first_fails[where body = "\<lambda>y. for_range 0 width (px y)", OF pos(2)]) (rule row)
  then have "interpolate data cdfs width height tilesX 1 (width div tilesX) (height div 1) out
      = Inl OutOfRange" for out
    by (simp add: interpolate_def px_def)
  then show ?thesis unfolding applyCLAHE_unfold[OF ws cc'] cdfs_def by simp
qed

subsection \<open>Images of one value\<close>

lemma tile_table_uniform:
  assumes ws: "well_sized (replicate n v) width height tilesX tilesY"
    and t: "0 \<le> ty" "ty < tilesY" "0 \<le> tx" "tx < tilesX"
  shows "tile_table (replicate n v) width (width div tilesX) (height div tilesY) clipCount ty tx
           = uniform_table v (width div tilesX * (height div tilesY)) clipCount"
proof -
  let ?tw = "width div tilesX" and ?th = "height div tilesY"
  have pos: "0 < width" "0 < height" "0 < tilesX" "0 < tilesY" "0 < ?tw" "0 < ?th"
    and size: "width * height < 2147483648"
    and dlen: "n = nat (width * height)"
    using ws by (simp_all add: well_sized_def)
  note f = well_sized_facts[OF ws]
  note fx = tile_fits[OF pos(1) pos(3) t(3,4)]
  note fy = tile_fits[OF pos(2) pos(4) t(1,2)]
  have wle: "width \<le> width * height" "height \<le> width * height" using pos by simp_all
  have sx: "mul32 tx ?tw = tx * ?tw" using fx pos wle size by (intro mul32_small) linarith+
  have sy: "mul32 ty ?th = ty * ?th" using fy pos wle size by (intro mul32_small) linarith+
  have v: "replicate n v ! nat (y * width + x) = v"
    if "tx * ?tw \<le> x" "x < tx * ?tw + ?tw" "ty * ?th \<le> y" "y < ty * ?th + ?th" for x y
  proof -
    have "0 \<le> y" "y < height" "0 \<le> x" "x < width" using that fx fy by linarith+
    from pixel_index(2,3)[OF this size] show ?thesis by (simp add: dlen nat_less_iff)
  qed
  have len: "nat (width * height) \<le> length (replicate n v)" by (simp add: dlen)
  have "build_hist (replicate n v) width (tx * ?tw) (ty * ?th) ?tw ?th
      = Inr ((replicate 256 0)[unat v := ?tw * ?th])"
    by (rule build_hist_uniform[OF fx(1) fy(1) pos(5,6) fx(2) fy(2) size len v])
  then show ?thesis by (simp add: tile_table_def uniform_table_def sx sy f(6) cong: sum.case_cong)
qed

lemma step1_tables_uniform:
  assumes ws: "well_sized (replicate n v) width height tilesX tilesY"
    and cc: "clip_count clipLimit (width div tilesX * (height div tilesY)) = Inr clipCount"
    and t: "0 \<le> ty" "ty < tilesY" "0 \<le> tx" "tx < tilesX"
  shows "step1_tables (replicate n v) width height tilesX tilesY clipLimit
           ! nat (cdf_index tilesX ty tx pixel)
         = uniform_table v (width div tilesX * (height div tilesY)) clipCount ! unat pixel"
proof -
  have size: "tilesX * tilesY * 256 < 2147483648" using ws by (simp add: well_sized_def)
  note f = well_sized_facts[OF ws]
  note num = tile_number[OF t]
  note p = uint8_range[of pixel]
  define n' where "n' = ty * tilesX + tx"
  have dm: "n' div tilesX = ty" "n' mod tilesX = tx" using tile_div_mod[OF t(3,4), of ty] by (simp_all add: n'_def)
  have ok: "0 \<le> n' \<and> n' < tilesX * tilesY \<and> 0 \<le> uint pixel \<and> uint pixel < 256"
    using num p by (simp add: n'_def)
  have "step1_tables (replicate n v) width height tilesX tilesY clipLimit ! nat (n' * 256 + uint pixel)
      = tile_table (replicate n v) width (width div tilesX) (height div tilesY) clipCount
          (n' div tilesX) (n' mod tilesX) ! nat (uint pixel)"
    using step1_ok(3)[OF ws cc, unfolded filled_def, rule_format, OF ok] .
  then show ?thesis
    unfolding dm cdf_index_in_range(1)[OF t size] n'_def[symmetric]
    by (simp add: tile_table_uniform[OF ws t])
qed

lemma sum_single_bin:
  fixes f :: "int \<Rightarrow> int"
  assumes "p < 256" "f 0 = 0"
  shows "sum_list (map f ((replicate 256 0)[p := n])) = f n"
proof -
  define xs where "xs = (replicate 256 (0::int))[p := n]"
  define m where "m = length xs"
  have m: "m = 256" by (simp add: m_def xs_def)
  have "sum_list (map f xs) = (\<Sum>j<m. f (xs ! j))"
    by (simp add: sum_list_sum_nth atLeast0LessThan m_def)
  also have "\<dots> = (\<Sum>j<m. if j = p then f n else 0)"
    using assms m by (intro sum.cong) (auto simp: xs_def nth_list_update)
  also have "\<dots> = f n" using assms(1) m by simp
  finally show ?thesis by (simp add: xs_def)
qed

lemma uniform_hist:
  assumes n: "0 \<le> n" "n < 2147483648" and c: "0 \<le> c"
  shows "\<exists>h'. clip_and_redistribute ((replicate 256 0)[unat v := n]) c = Inr h' \<and>
           uniform_table v n c = build_cdf h' n \<and>
           length h' = 256 \<and> (\<forall>b\<in>set h'. 0 \<le> b) \<and> sum_list h' = n \<and>
           (\<forall>b<256. h' ! b = uniform_bin v n c b)"
proof -
  define p where "p = unat v"
  have p: "p < 256" using unsigned_less[of v] by (simp add: p_def)
  define hist where "hist = (replicate 256 (0::int))[p := n]"
  have len: "length hist = 256" by (simp add: hist_def)
  have nn: "\<forall>b\<in>set hist. 0 \<le> b"
  proof
    fix b assume "b \<in> set hist"
    then have "b \<in> insert n (set (replicate 256 0))"
      unfolding hist_def using set_update_subset_insert by fast
    then show "0 \<le> b" using n by auto
  qed
  have tot: "sum_list hist = n" using sum_single_bin[of p "\<lambda>h. h" n] p by (simp add: hist_def)
  have ex: "sum_list (map (\<lambda>h. max 0 (h - c)) hist) = max 0 (n - c)"
    unfolding hist_def using c by (intro sum_single_bin[OF p]) simp
  have lt: "sum_list hist < 2147483648" using tot n by simp
  from clip_and_redistribute_eq[OF len nn lt c, unfolded ex]
  obtain h' where h': "clip_and_redistribute hist c = Inr h'" "length h' = 256"
    "\<forall>b<256. h' ! b = min c (hist ! b) + max 0 (n - c) div 256
        + (if int b \<in> remainder_bins (max 0 (n - c) mod 256) then 1 else 0)"
    by blast
  from clip_and_redistribute_total[OF len nn lt c] h'(1)
  have good: "\<forall>b\<in>set h'. 0 \<le> b" "sum_list h' = n" using tot by auto
  have vals: "\<forall>b<256. h' ! b = uniform_bin v n c b"
  proof (intro allI impI)
    fix b :: nat assume b: "b < 256"
    have "min c (hist ! b) = (if b = p then min c n else 0)"
      using b p c by (simp add: hist_def nth_list_update)
    then show "h' ! b = uniform_bin v n c b"
      using h'(3) b by (simp add: uniform_bin_def Let_def p_def)
  qed
  show ?thesis
    using h' good vals by (auto simp: uniform_table_def hist_def p_def)
qed

lemma uniform_table_nth:
  assumes n: "0 \<le> n" "n < 2147483648" and c: "0 \<le> c" and i: "i < 256"
  shows "uniform_table v n c ! i = cdf_entry (\<Sum>b\<le>i. uniform_bin v n c b) n"
proof -
  from uniform_hist[OF n c, of v]
  obtain h' where h': "uniform_table v n c = build_cdf h' n" "length h' = 256"
    "\<forall>b\<in>set h'. 0 \<le> b" "sum_list h' = n" "\<forall>b<256. h' ! b = uniform_bin v n c b"
    by blast
  have "sum_list (take (Suc i) h') = (\<Sum>b<Suc i. take (Suc i) h' ! b)"
    using i h'(2) by (simp add: sum_list_sum_nth atLeast0LessThan)
  also have "\<dots> = (\<Sum>b<Suc i. uniform_bin v n c b)"
    using i h'(5) by (intro sum.cong) auto
  finally have "sum_list (take (Suc i) h') = (\<Sum>b\<le>i. uniform_bin v n c b)"
    by (simp add: lessThan_Suc_atMost)
  then show ?thesis
    using build_cdf_nth[OF h'(2,3) _ i, of n] h'(1,4) n by simp
qed

lemma uniform_table_last:
  assumes n: "0 \<le> n" "n < 2147483648" and c: "0 \<le> c"
  shows "uniform_table v n c ! 255 = cdf_entry n n"
    and "uniform_table v n c ! 254 = cdf_entry (n - uniform_bin v n c 255) n"
proof -
  from uniform_hist[OF n c, of v]
  obtain h' where h': "uniform_table v n c = build_cdf h' n" "length h' = 256"
    "\<forall>b\<in>set h'. 0 \<le> b" "sum_list h' = n" "\<forall>b<256. h' ! b = uniform_bin v n c b"
    by blast
  have "take 256 h' = h'" using h'(2) by simp
  then show "uniform_table v n c ! 255 = cdf_entry n n"
    using build_cdf_nth[OF h'(2,3), of 255 n] h'(1,4) n by simp
  have "h' = take 255 h' @ [h' ! 255]"
    using h'(2) take_Suc_conv_app_nth[of 255 h'] by simp
  then have "sum_list h' = sum_list (take 255 h') + h' ! 255"
    by (metis sum_list.append sum_list.Cons sum_list.Nil add.right_neutral)
  then have "sum_list (take 255 h') = n - uniform_bin v n c 255" using h'(4,5) by simp
  then show "uniform_table v n c ! 254 = cdf_entry (n - uniform_bin v n c 255) n"
    using build_cdf_nth[OF h'(2,3), of 254 n] h'(1,4) n by simp
qed

lemma uniform_table_exact:
  assumes n: "0 < n" "n \<le> 8421504" and c: "0 \<le> c" and i: "i < 256"
  shows "uint (uniform_table v n c ! i) = min 255 ((\<Sum>b\<le>i. uniform_bin v n c b) * 255 div n)"
proof -
  have n': "0 \<le> n" "n < 2147483648" using n by simp_all
  from uniform_hist[OF n' c, of v]
  obtain h' where h': "length h' = 256" "\<forall>b\<in>set h'. 0 \<le> b" "sum_list h' = n"
    "\<forall>b<256. h' ! b = uniform_bin v n c b"
    by blast
  have "sum_list (take (Suc i) h') = (\<Sum>b<Suc i. take (Suc i) h' ! b)"
    using i h'(1) by (simp add: sum_list_sum_nth atLeast0LessThan)
  also have "\<dots> = (\<Sum>b<Suc i. uniform_bin v n c b)"
    using i h'(4) by (intro sum.cong) auto
  finally have s: "sum_list (take (Suc i) h') = (\<Sum>b\<le>i. uniform_bin v n c b)"
    by (simp add: lessThan_Suc_atMost)
  have "0 \<le> sum_list (take (Suc i) h')"
    using h'(2) by (intro sum_list_nonneg) (meson in_set_takeD)
  moreover have "sum_list (take (Suc i) h') \<le> sum_list (take 256 h')"
    using i by (intro sum_take_mono[OF h'(2)]) simp
  ultimately have "0 \<le> (\<Sum>b\<le>i. uniform_bin v n c b)" "(\<Sum>b\<le>i. uniform_bin v n c b) \<le> n"
    using s h'(1,3) by simp_all
  then have "0 \<le> (\<Sum>b\<le>i. uniform_bin v n c b)" "0 < n"
    "(\<Sum>b\<le>i. uniform_bin v n c b) * 255 < 2147483648"
    using n by simp_all
  from cdf_entry_exact[OF this] show ?thesis
    by (simp add: uniform_table_nth[OF n' c i])
qed

lemma interp_value_uniform:
  assumes ws: "well_sized (replicate n v) width height tilesX tilesY"
    and tiles: "2 \<le> tilesX" "2 \<le> tilesY"
    and cc: "clip_count clipLimit (width div tilesX * (height div tilesY)) = Inr clipCount"
  shows "interp_value (step1_tables (replicate n v) width height tilesX tilesY clipLimit)
             tilesX tilesY tileW tileH x y pixel
         = uniform_pixel
             (uniform_table v (width div tilesX * (height div tilesY)) clipCount ! unat pixel)
             tilesX tilesY tileW tileH x y"
proof -
  have size: "tilesX * tilesY * 256 < 2147483648" using ws by (simp add: well_sized_def)
  define tx0 where "tx0 = clamp_tile (towards_zero (tile_coord x tileW)) tilesX"
  define ty0 where "ty0 = clamp_tile (towards_zero (tile_coord y tileH)) tilesY"
  have "tilesX * 1 \<le> tilesX * (tilesY * 256)" using tiles by (intro mult_left_mono) auto
  then have bx: "tilesX < 2147483648" using size by (simp add: mult.assoc)
  have "tilesY * 1 \<le> tilesY * (tilesX * 256)" using tiles by (intro mult_left_mono) auto
  then have by': "tilesY < 2147483648" using size by (simp add: mult.assoc mult.left_commute)
  note cx = clamp_tile_range[OF tiles(1) bx, of "towards_zero (tile_coord x tileW)", folded tx0_def]
  note cy = clamp_tile_range[OF tiles(2) by', of "towards_zero (tile_coord y tileH)", folded ty0_def]
  note u = step1_tables_uniform[OF ws cc, where pixel = pixel]
  have r00: "0 \<le> ty0" "ty0 < tilesY" "0 \<le> tx0" "tx0 < tilesX" using cx cy by linarith+
  have r01: "0 \<le> ty0" "ty0 < tilesY" "0 \<le> tx0 + 1" "tx0 + 1 < tilesX" using cx cy by linarith+
  have r10: "0 \<le> ty0 + 1" "ty0 + 1 < tilesY" "0 \<le> tx0" "tx0 < tilesX" using cx cy by linarith+
  have r11: "0 \<le> ty0 + 1" "ty0 + 1 < tilesY" "0 \<le> tx0 + 1" "tx0 + 1 < tilesX" using cx cy by linarith+
  show ?thesis
    unfolding interp_value_def uniform_pixel_def Let_def
    unfolding tx0_def[symmetric] ty0_def[symmetric] cx(3) cy(3)
    by (simp only: u[OF r00] u[OF r01] u[OF r10] u[OF r11])
qed

lemma uniform_image:
  assumes ws: "well_sized (replicate n v) width height tilesX tilesY"
    and tiles: "2 \<le> tilesX" "2 \<le> tilesY"
    and cc: "clip_count clipLimit (width div tilesX * (height div tilesY)) = Inr clipCount"
  shows "applyCLAHE (Some (replicate n v)) width height tilesX tilesY clipLimit =
     Inr \<lparr>allocs = [nat (tilesX * tilesY * 256), nat (width * height)],
          buffer = Some (map (\<lambda>j. uniform_pixel
                                 (uniform_table v (width div tilesX * (height div tilesY)) clipCount
                                  ! unat v)
                                 tilesX tilesY (width div tilesX) (height div tilesY)
                                 (int j mod width) (int j div width))
                           [0..<nat (width * height)])\<rparr>"
proof -
  have n: "n = nat (width * height)" using ws by (simp add: well_sized_def)
  have "map (\<lambda>j. interp_value (step1_tables (replicate n v) width height tilesX tilesY clipLimit)
                    tilesX tilesY (width div tilesX) (height div tilesY)
                    (int j mod width) (int j div width) (replicate n v ! j))
            [0..<nat (width * height)]
      = map (\<lambda>j. uniform_pixel
                    (uniform_table v (width div tilesX * (height div tilesY)) clipCount ! unat v)
                    tilesX tilesY (width div tilesX) (height div tilesY)
                    (int j mod width) (int j div width))
            [0..<nat (width * height)]"
  proof (rule map_cong)
    fix j assume "j \<in> set [0..<nat (width * height)]"
    then have "replicate n v ! j = v" by (simp add: n)
    then show "interp_value (step1_tables (replicate n v) width height tilesX tilesY clipLimit)
                    tilesX tilesY (width div tilesX) (height div tilesY)
                    (int j mod width) (int j div width) (replicate n v ! j)
        = uniform_pixel
                    (uniform_table v (width div tilesX * (height div tilesY)) clipCount ! unat v)
                    tilesX tilesY (width div tilesX) (height div tilesY)
                    (int j mod width) (int j div width)"
      by (simp only: interp_value_uniform[OF ws tiles cc])
  qed simp
  then show ?thesis unfolding applyCLAHE_result[OF ws tiles cc] by simp
qed

lemma uniform_pixel_255:
  "uniform_pixel 255 2 2 1 1 0 0 = 255" "uniform_pixel 255 2 2 1 1 1 0 = 255"
  "uniform_pixel 255 2 2 1 1 0 1 = 255" "uniform_pixel 255 2 2 1 1 1 1 = 255"
  by (simp_all add: uniform_pixel_def tile_coord_0_1 tile_coord_1_1 towards_zero_halves
      clamp_tile_0_2 weight_halves blend_255 stored_byte_255)

lemma uniform_table_0_1: "uniform_table 0 1 1 ! 0 = 255"
proof -
  have "uniform_table 0 1 1 ! 0 = cdf_entry (\<Sum>b\<le>0. uniform_bin 0 1 1 b) 1"
    by (rule uniform_table_nth) simp_all
  also have "(\<Sum>b\<le>(0::nat). uniform_bin 0 1 1 b) = 1"
    by (simp add: uniform_bin_def)
  also have "cdf_entry 1 1 = 255"
    by (simp add: cdf_entry_def mul32_def wrap32_def)
  finally show ?thesis .
qed

lemma uniform_bin_big: "uniform_bin 0 8427409 65839 255 = 32662"
proof -
  have "(255::int) \<notin> remainder_bins 98"
    using remainder_bins_le[of 98 255] by auto
  then show ?thesis by (simp add: uniform_bin_def)
qed

lemma big_tile_entries:
  "step1_tables (replicate (5806 * 5806) 0) 5806 5806 2 2 2 ! 255 = cdf_entry 8427409 8427409"
  "step1_tables (replicate (5806 * 5806) 0) 5806 5806 2 2 2 ! 254 = cdf_entry 8394747 8427409"
proof -
  have ws: "well_sized (replicate (5806 * 5806) (0::u8)) 5806 5806 2 2"
    by (simp add: well_sized_def)
  have i: "nat (cdf_index 2 0 0 254) = 254" "nat (cdf_index 2 0 0 255) = 255"
    by (simp_all add: cdf_index_def add32_def mul32_def wrap32_def)
  have cc: "clip_count 2 (5806 div 2 * (5806 div 2)) = Inr 65839"
    by (simp add: clip_count_2_big)
  have t: "step1_tables (replicate (5806 * 5806) 0) 5806 5806 2 2 2 ! nat (cdf_index 2 0 0 p)
      = uniform_table 0 8427409 65839 ! unat p" for p
    using step1_tables_uniform[OF ws cc, of 0 0 p] by simp
  have "uniform_table 0 8427409 65839 ! 255 = cdf_entry 8427409 8427409"
    by (rule uniform_table_last) simp_all
  then show "step1_tables (replicate (5806 * 5806) 0) 5806 5806 2 2 2 ! 255
      = cdf_entry 8427409 8427409"
    using t[of 255] by (simp add: i)
  have "uniform_table 0 8427409 65839 ! 254
      = cdf_entry (8427409 - uniform_bin 0 8427409 65839 255) 8427409"
    by (rule uniform_table_last) simp_all
  then show "step1_tables (replicate (5806 * 5806) 0) 5806 5806 2 2 2 ! 254
      = cdf_entry 8394747 8427409"
    using t[of 254] by (simp add: i uniform_bin_big)
qed

section \<open>The claims\<close>

text \<open>
  C1. A call with an invalid input (a null buffer, a width, height or tile count that is
  not positive, or tiles of width \<open>\<lfloor>W / tilesX\<rfloor> = 0\<close> or height \<open>\<lfloor>H / tilesY\<rfloor> = 0\<close>) returns
  having allocated nothing, and the caller's buffer is what it was.
\<close>

theorem applyCLAHE_invalid_is_noop:
  assumes "data = None \<or> width \<le> 0 \<or> height \<le> 0 \<or> tilesX \<le> 0 \<or> tilesY \<le> 0
             \<or> width div tilesX = 0 \<or> height div tilesY = 0"
  shows "applyCLAHE data width height tilesX tilesY clipLimit = Inr \<lparr>allocs = [], buffer = data\<rparr>"
proof (cases data)
  case None
  then show ?thesis by (simp add: applyCLAHE_def)
next
  case (Some pixels)
  show ?thesis
  proof (cases "width \<le> 0 \<or> height \<le> 0 \<or> tilesX \<le> 0 \<or> tilesY \<le> 0")
    case True
    then show ?thesis using Some by (auto simp: applyCLAHE_def)
  next
    case False
    then have pos: "0 < width" "0 < height" "0 < tilesX" "0 < tilesY" by auto
    then have "width sdiv tilesX = width div tilesX" "height sdiv tilesY = height div tilesY"
      by (simp_all add: signed_divide_int_def sgn_if)
    moreover have "width div tilesX = 0 \<or> height div tilesY = 0"
      using assms Some False by auto
    ultimately show ?thesis using Some by (auto simp: applyCLAHE_def Let_def)
  qed
qed

text \<open>The theorem at a 2 x 2 image asked to be cut into three columns.\<close>

theorem applyCLAHE_invalid_is_noop_witness:
  "(2::int) div 3 = 0 \<and>
   applyCLAHE (Some [1, 2, 3, 4]) 2 2 3 1 2 = Inr \<lparr>allocs = [], buffer = Some [1, 2, 3, 4]\<rparr>"
  using applyCLAHE_invalid_is_noop [of "Some [1, 2, 3, 4]" 2 2 3 1 2] by simp

text \<open>
  C2. The reads of lines 115-118 are not always inside the table. For a 1 x 1 image and
  \<open>tilesX = tilesY = 1\<close> the table has 256 entries; the casts of lines 99-100 give 0 and
  the clamp of lines 103-104 gives \<open>tx0 = ty0 = 0\<close>, so \<open>tx1 = 1\<close>, and line 116 reads at
  the flat index \<open>(ty0 * tilesX + tx1) * 256 + pixel = 256\<close>: the call reads outside the
  table.
\<close>

theorem applyCLAHE_single_tile_reads_outside:
  "length (step1_tables [0] 1 1 1 1 2) = 256 \<and>
   d2i (tile_coord 0 1) = Inr 0 \<and>
   cdf_index 1 (clamp_tile 0 1) (add32 (clamp_tile 0 1) 1) 0 = 256 \<and>
   applyCLAHE (Some [0]) 1 1 1 1 2 = Inl OutOfRange"
proof (intro conjI)
  have ws: "well_sized [0] 1 1 1 1" by (simp add: well_sized_def)
  have cc: "clip_count 2 (1 div 1 * (1 div 1)) = Inr 1" by (simp add: clip_count_2_1)
  show "length (step1_tables [0] 1 1 1 1 2) = 256"
    using step1_ok(2)[OF ws cc] by simp
  show "d2i (tile_coord 0 1) = Inr 0"
    by (simp add: tile_coord_0_1 d2i_def towards_zero_halves)
  show "cdf_index 1 (clamp_tile 0 1) (add32 (clamp_tile 0 1) 1) 0 = 256"
    by (simp add: clamp_tile_one cdf_index_def add32_def mul32_def wrap32_def)
  show "applyCLAHE (Some [0]) 1 1 1 1 2 = Inl OutOfRange"
    by (rule applyCLAHE_one_row[where clipCount = 1])
       (simp_all add: well_sized_def clip_count_2_1)
qed

text \<open>
  C3. An image of one value does not stay as it is: the 2 x 2 image of zeros, cut into
  2 x 2 tiles, comes back as four pixels of 255.
\<close>

theorem zero_image_becomes_white:
  "applyCLAHE (Some [0, 0, 0, 0]) 2 2 2 2 2 =
     Inr \<lparr>allocs = [1024, 4], buffer = Some [255, 255, 255, 255]\<rparr>"
proof -
  have data: "[0, 0, 0, 0] = replicate 4 (0::u8)" by (simp add: numeral_eq_Suc)
  have ws: "well_sized (replicate 4 (0::u8)) 2 2 2 2" by (simp add: well_sized_def)
  have cc: "clip_count 2 (2 div 2 * (2 div 2)) = Inr 1" by (simp add: clip_count_2_1)
  have idx: "[0..<4] = [0, 1, 2, 3::nat]" by code_simp
  show ?thesis
    unfolding data uniform_image[OF ws _ _ cc, simplified]
    by (simp add: idx uniform_table_0_1 uniform_pixel_255)
qed

text \<open>
  C3, as the code has it. Take a valid input with at least two rows and two columns of
  tiles and sizes that are \<open>int\<close>s, whose pixels all have the value \<open>v\<close>; let the tiles
  have at most 8421504 pixels, so that the product \<open>cumSum * 255\<close> of line 81 is an \<open>int\<close>;
  let \<open>clipLimit\<close> be a \<open>double\<close> for which the cast of line 37 is defined, and
  \<open>clipCount\<close> the clip count of line 37. Then the call returns, and the pixel at
  \<open>(x, y)\<close> becomes the blend of lines 120-125 of four copies of the entry at \<open>v\<close> of the
  table \<open>T\<close> of the histogram whose single bin \<open>v\<close> holds \<open>tileW * tileH\<close>. The entry is
  \<open>min(255, cumSum * 255 / numPixelsPerTile)\<close> in exact arithmetic, \<open>cumSum\<close> the sum of
  the bins \<open>0..v\<close> after clipping and redistribution; it is not \<open>v\<close>.
\<close>

theorem uniform_image_result:
  assumes "well_sized (replicate n v) width height tilesX tilesY"
    and "2 \<le> tilesX" and "2 \<le> tilesY"
    and "width div tilesX * (height div tilesY) \<le> 8421504"
    and "round53 clipLimit = clipLimit"
    and "clip_count clipLimit (width div tilesX * (height div tilesY)) = Inr clipCount"
  shows "applyCLAHE (Some (replicate n v)) width height tilesX tilesY clipLimit =
     Inr \<lparr>allocs = [nat (tilesX * tilesY * 256), nat (width * height)],
          buffer = Some (map (\<lambda>j. uniform_pixel
                                 (uniform_table v (width div tilesX * (height div tilesY)) clipCount
                                  ! unat v)
                                 tilesX tilesY (width div tilesX) (height div tilesY)
                                 (int j mod width) (int j div width))
                           [0..<nat (width * height)])\<rparr>
     \<and> uint (uniform_table v (width div tilesX * (height div tilesY)) clipCount ! unat v)
         = min 255 ((\<Sum>b\<le>unat v. uniform_bin v (width div tilesX * (height div tilesY))
                                    clipCount b) * 255
                    div (width div tilesX * (height div tilesY)))"
proof
  show "applyCLAHE (Some (replicate n v)) width height tilesX tilesY clipLimit =
     Inr \<lparr>allocs = [nat (tilesX * tilesY * 256), nat (width * height)],
          buffer = Some (map (\<lambda>j. uniform_pixel
                                 (uniform_table v (width div tilesX * (height div tilesY)) clipCount
                                  ! unat v)
                                 tilesX tilesY (width div tilesX) (height div tilesY)
                                 (int j mod width) (int j div width))
                           [0..<nat (width * height)])\<rparr>"
    by (rule uniform_image[OF assms(1-3,6)])
  have pos: "0 < width div tilesX" "0 < height div tilesY"
    using assms(1) by (simp_all add: well_sized_def)
  then have n: "0 < width div tilesX * (height div tilesY)" by simp
  have c: "0 \<le> clipCount" using clip_count_pos[OF assms(6)] by linarith
  have v: "unat v < 256" using unsigned_less[of v] by simp
  show "uint (uniform_table v (width div tilesX * (height div tilesY)) clipCount ! unat v)
         = min 255 ((\<Sum>b\<le>unat v. uniform_bin v (width div tilesX * (height div tilesY))
                                    clipCount b) * 255
                    div (width div tilesX * (height div tilesY)))"
    by (rule uniform_table_exact[OF n assms(4) c v])
qed

text \<open>The theorem at the 2 x 2 image of the value 200, cut into 2 x 2 tiles, with
  \<open>clipLimit = 2.0\<close>: the tiles have one pixel, the clip count is 1.\<close>

theorem uniform_image_result_witness:
  "well_sized (replicate 4 200) 2 2 2 2 \<and>
   round53 2 = 2 \<and>
   clip_count 2 (2 div 2 * (2 div 2)) = Inr 1 \<and>
   applyCLAHE (Some (replicate 4 200)) 2 2 2 2 2 =
     Inr \<lparr>allocs = [1024, 4],
          buffer = Some (map (\<lambda>j. uniform_pixel (uniform_table 200 1 1 ! 200)
                                 2 2 1 1 (int j mod 2) (int j div 2))
                           [0..<4])\<rparr> \<and>
   uint (uniform_table 200 1 1 ! 200) = min 255 ((\<Sum>b\<le>200. uniform_bin 200 1 1 b) * 255 div 1)"
proof -
  have ws: "well_sized (replicate 4 (200::u8)) 2 2 2 2" by (simp add: well_sized_def)
  have cc: "clip_count 2 (2 div 2 * (2 div 2)) = Inr 1" by (simp add: clip_count_2_1)
  have r: "round53 2 = 2" by (simp add: round53_values)
  from uniform_image_result[OF ws _ _ _ r cc] ws r cc show ?thesis by simp
qed

text \<open>
  C4. With one row of tiles the byte stored is not the blend of four table entries: for a
  2 x 1 image, \<open>tilesX = 2\<close> and \<open>tilesY = 1\<close>, the table has 512 entries; at the first
  pixel the casts of lines 99-100 give 0, and line 117 reads at the flat index
  \<open>(ty1 * tilesX + tx0) * 256 + pixel = 512\<close>. (With at least two rows and two columns
  of tiles, \<open>applyCLAHE_result\<close> gives every byte stored as the value interpolated from the
  tables and the pixel's value before the call.)
\<close>

theorem applyCLAHE_one_tile_row_reads_outside:
  "length (step1_tables [0, 0] 2 1 2 1 2) = 512 \<and>
   d2i (tile_coord 0 1) = Inr 0 \<and>
   cdf_index 2 (add32 (clamp_tile 0 1) 1) (clamp_tile 0 2) 0 = 512 \<and>
   applyCLAHE (Some [0, 0]) 2 1 2 1 2 = Inl OutOfRange"
proof (intro conjI)
  have ws: "well_sized [0, 0] 2 1 2 1" by (simp add: well_sized_def)
  have cc: "clip_count 2 (2 div 2 * (1 div 1)) = Inr 1" by (simp add: clip_count_2_1)
  show "length (step1_tables [0, 0] 2 1 2 1 2) = 512"
    using step1_ok(2)[OF ws cc] by simp
  show "d2i (tile_coord 0 1) = Inr 0"
    by (simp add: tile_coord_0_1 d2i_def towards_zero_halves)
  show "cdf_index 2 (add32 (clamp_tile 0 1) 1) (clamp_tile 0 2) 0 = 512"
    by (simp add: clamp_tile_one clamp_tile_0_2 cdf_index_def add32_def mul32_def wrap32_def)
  show "applyCLAHE (Some [0, 0]) 2 1 2 1 2 = Inl OutOfRange"
    by (rule applyCLAHE_one_row[where clipCount = 1])
       (simp_all add: well_sized_def clip_count_2_1)
qed

text \<open>
  C5. For a histogram of 256 bins that are not negative and sum to \<open>tileW * tileH\<close>
  (an \<open>int\<close> of the program), and a clip count of at least 1, clipping and
  redistribution (lines 57-73) write no bin outside the histogram and yield a histogram
  whose bins are not negative and still sum to \<open>tileW * tileH\<close>.
\<close>

theorem clip_and_redistribute_keeps_total:
  assumes "length hist = 256" and "\<forall>b\<in>set hist. 0 \<le> b"
    and "sum_list hist = tileW * tileH" and "tileW * tileH < 2147483648"
    and "1 \<le> clipCount"
  shows "\<exists>hist'. clip_and_redistribute hist clipCount = Inr hist' \<and> length hist' = 256 \<and>
           (\<forall>b\<in>set hist'. 0 \<le> b) \<and> sum_list hist' = tileW * tileH"
proof -
  have "sum_list hist < 2147483648" "0 \<le> clipCount" using assms by simp_all
  from clip_and_redistribute_total[OF assms(1,2) this] show ?thesis using assms(3) by simp
qed

text \<open>The theorem at the histogram of a 2 x 3 tile whose six pixels are all 255.\<close>

theorem clip_and_redistribute_keeps_total_witness:
  "\<exists>hist'. clip_and_redistribute (replicate 255 0 @ [6]) 1 = Inr hist' \<and> length hist' = 256 \<and>
           (\<forall>b\<in>set hist'. 0 \<le> b) \<and> sum_list hist' = 2 * 3"
proof -
  have h: "length (replicate 255 0 @ [6::int]) = 256" "\<forall>b\<in>set (replicate 255 0 @ [6::int]). 0 \<le> b"
    "sum_list (replicate 255 0 @ [6::int]) = 2 * 3" "(2::int) * 3 < 2147483648" "(1::int) \<le> 1"
    by (simp_all add: sum_list_replicate)
  from clip_and_redistribute_keeps_total[OF h] show ?thesis .
qed

text \<open>
  C6. The table of a tile is not always monotone. A 5806 x 5806 image of zeros with
  \<open>tilesX = tilesY = 2\<close> has tiles of 8427409 pixels; in the table of the tile
  \<open>(0, 0)\<close>, which starts the vector \<open>cdfs\<close>, entry 254 is 254 and entry 255 is 2: the
  product \<open>cumSum * 255\<close> of line 81 exceeds \<open>INT_MAX\<close> for the last running sum. (As long
  as the product is an \<open>int\<close>, \<open>build_cdf_sorted\<close> gives a monotone table.)
\<close>

theorem big_tile_table_decreases:
  "step1_tables (replicate (5806 * 5806) 0) 5806 5806 2 2 2 ! 254 = 254 \<and>
   step1_tables (replicate (5806 * 5806) 0) 5806 5806 2 2 2 ! 255 = 2"
  unfolding big_tile_entries
  by (simp add: cdf_entry_def mul32_def wrap32_def signed_divide_int_def)

text \<open>
  C7. The entry that lines 80-81 compute in 32-bit arithmetic is not always the entry of
  exact arithmetic. In the call of C6 the last running sum of the tile \<open>(0, 0)\<close> is
  \<open>cumSum = 8427409\<close>; the product \<open>cumSum * 255\<close> exceeds \<open>INT_MAX\<close>, and the entry is 2
  where exact arithmetic gives 255. (As long as the product is an \<open>int\<close>,
  \<open>cdf_entry_exact\<close> gives the exact entry; the value of line 124 is clamped to 0..255
  before the cast, \<open>d2u8_clamped\<close>.)
\<close>

theorem cdf_entry_overflow:
  "step1_tables (replicate (5806 * 5806) 0) 5806 5806 2 2 2 ! 255 = cdf_entry 8427409 8427409 \<and>
   cdf_entry 8427409 8427409 = 2 \<and>
   max 0 (min 255 (8427409 * 255 div 8427409)) = (255::int)"
  unfolding big_tile_entries
  by (simp add: cdf_entry_def mul32_def wrap32_def signed_divide_int_def)

text \<open>
  C8. A 3 x 1 image with \<open>tilesX = 2\<close> and \<open>tilesY = 1\<close> has tiles of width 1, so that the
  pixel of column 2, of value 30, lies beyond the tiles. For this pixel the casts of
  lines 99-100 give 1 and 0, and line 117 reads at the flat index 542 of a table of 512
  entries; the call ends in a read outside the table
  (at its first pixel) and assigns the pixel of column 2 no value. (With at least two rows and two columns of tiles,
  \<open>step1_tables_cong\<close> shows that no histogram counts such a pixel, and
  \<open>applyCLAHE_result\<close> that it is assigned its interpolated value.)
\<close>

theorem applyCLAHE_uncovered_column_reads_outside:
  "2 * (3 sdiv 2) \<le> (2::int) \<and>
   length (step1_tables [10, 20, 30] 3 1 2 1 2) = 512 \<and>
   d2i (tile_coord 2 1) = Inr 1 \<and> d2i (tile_coord 0 1) = Inr 0 \<and>
   cdf_index 2 (add32 (clamp_tile 0 1) 1) (clamp_tile 1 2) 30 = 542 \<and>
   applyCLAHE (Some [10, 20, 30]) 3 1 2 1 2 = Inl OutOfRange"
proof (intro conjI)
  have ws: "well_sized [10, 20, 30] 3 1 2 1" by (simp add: well_sized_def)
  have cc: "clip_count 2 (3 div 2 * (1 div 1)) = Inr 1" by (simp add: clip_count_2_1)
  show "2 * (3 sdiv 2) \<le> (2::int)" by (simp add: signed_divide_int_def)
  show "length (step1_tables [10, 20, 30] 3 1 2 1 2) = 512"
    using step1_ok(2)[OF ws cc] by simp
  have tc: "tile_coord 2 1 = 3 / 2"
    by (simp add: tile_coord_def double_defs round53_values)
  have fl: "\<lfloor>3 / 2 :: rat\<rfloor> = 1"
    by (simp add: floor_eq_iff)
  show "d2i (tile_coord 2 1) = Inr 1"
    unfolding tc by (simp add: d2i_def towards_zero_def fl)
  show "d2i (tile_coord 0 1) = Inr 0"
    by (simp add: tile_coord_0_1 d2i_def towards_zero_halves)
  have "clamp_tile 1 2 = 0"
    by (simp add: clamp_tile_def sub32_def wrap32_def)
  then show "cdf_index 2 (add32 (clamp_tile 0 1) 1) (clamp_tile 1 2) 30 = 542"
    by (simp add: clamp_tile_one cdf_index_def add32_def mul32_def wrap32_def)
  show "applyCLAHE (Some [10, 20, 30]) 3 1 2 1 2 = Inl OutOfRange"
    by (rule applyCLAHE_one_row[where clipCount = 1])
       (simp_all add: well_sized_def clip_count_2_1)
qed


text \<open>
  C10. For a remainder \<open>r\<close> with \<open>0 < r < 256\<close>, the bins \<open>i * 256 / r\<close> of the
  iterations \<open>i\<close> in \<open>[0, r)\<close> lie in \<open>[0, 255]\<close> and are pairwise distinct (there are
  \<open>r\<close> of them), so the remainder loop of lines 71-73 increments exactly these \<open>r\<close>
  bins, each once, and leaves the others as they were.
\<close>

theorem remainder_bins_distinct:
  assumes "0 < r" and "r < 256" and "length hist = 256"
  shows "(\<forall>i\<in>{0..<r}. 0 \<le> remainder_bin i r \<and> remainder_bin i r \<le> 255) \<and>
         inj_on (\<lambda>i. remainder_bin i r) {0..<r} \<and>
         card (remainder_bins r) = nat r \<and>
         (\<exists>hist'. add_remainder r hist = Inr hist' \<and> length hist' = 256 \<and>
            (\<forall>b<256. hist' ! b =
               (if int b \<in> remainder_bins r then add32 (hist ! b) 1 else hist ! b)))"
proof (intro conjI)
  show "\<forall>i\<in>{0..<r}. 0 \<le> remainder_bin i r \<and> remainder_bin i r \<le> 255"
    using remainder_bin_range[of _ r] assms by auto
  show "inj_on (\<lambda>i. remainder_bin i r) {0..<r}" using assms by (simp add: remainder_bin_inj)
  show "card (remainder_bins r) = nat r" using assms by (simp add: card_remainder_bins)
  show "\<exists>hist'. add_remainder r hist = Inr hist' \<and> length hist' = 256 \<and>
            (\<forall>b<256. hist' ! b =
               (if int b \<in> remainder_bins r then add32 (hist ! b) 1 else hist ! b))"
    using add_remainder_bins[of r hist] assms by simp
qed

text \<open>The theorem at \<open>r = 3\<close> and the empty histogram.\<close>

theorem remainder_bins_distinct_witness:
  "inj_on (\<lambda>i. remainder_bin i 3) {0..<3} \<and>
   card (remainder_bins 3) = 3 \<and>
   (\<exists>hist'. add_remainder 3 (replicate 256 0) = Inr hist' \<and> length hist' = 256 \<and>
      (\<forall>b<256. hist' ! b =
         (if int b \<in> remainder_bins 3 then add32 (replicate 256 0 ! b) 1
          else replicate 256 0 ! b)))"
proof -
  have h: "0 < (3::int)" "(3::int) < 256" "length (replicate 256 (0::int)) = 256" by simp_all
  from remainder_bins_distinct[OF h] show ?thesis by simp
qed

end
